theory Spec2Isabelle
  imports Main "HOL-Library.Word"
begin

section \<open>The Go JPEG benchmark: \<open>decode\<close>\<close>

text \<open>
  The benchmark program of the repository decodes a JPEG with Go's standard library and
  reports how many bytes of pixel data the decoded image holds. Only \<open>decode\<close> computes
  anything; \<open>jpeg.Decode\<close>, \<open>image.NewRGBA\<close> and \<open>draw.Draw\<close> belong to Go's standard
  library. \<open>jpeg.Decode\<close> and the pixels \<open>draw.Draw\<close> writes are parameters of the
  model; \<open>image.NewRGBA\<close> is modelled with its documented panic.
\<close>

type_synonym byte = "8 word"
type_synonym uint64 = "64 word"

text \<open>\<open>image.Rectangle\<close>: two points, \<open>Min\<close> and \<open>Max\<close>.\<close>

record Rectangle =
  Min_X :: int
  Min_Y :: int
  Max_X :: int
  Max_Y :: int

definition Dx :: "Rectangle \<Rightarrow> int" where
  "Dx r = Max_X r - Min_X r"

definition Dy :: "Rectangle \<Rightarrow> int" where
  "Dy r = Max_Y r - Min_Y r"

text \<open>
  The dynamic type of an \<open>image.Image\<close> value. \<open>decode\<close> tells three types apart;
  every other type (\<open>*image.CMYK\<close>, which \<open>jpeg.Decode\<close> returns for four-component
  files, among them) is \<open>OtherType\<close> with the name \<open>%T\<close> prints.
\<close>

datatype image_type = Gray | RGBA | YCbCr | OtherType string

record Image =
  dyn_type :: image_type
  Bounds :: Rectangle
  Pix :: "byte list"

datatype panic = IndexOutOfRange nat nat | HugeOrNegativeDimensions

text \<open>
  The two errors \<open>decode\<close> returns: the one \<open>jpeg.Decode\<close> gave, unchanged, and the one
  made by \<open>fmt.Errorf("unexpected image type %T", m)\<close>.
\<close>

datatype 'e go_error = Propagated 'e | UnexpectedImageType string

text \<open>
  \<open>image.NewRGBA(r)\<close> allocates \<open>4 * Dx * Dy\<close> zero bytes and panics when a dimension is
  negative or the product does not fit Go's 64-bit \<open>int\<close>.
\<close>

definition NewRGBA :: "Rectangle \<Rightarrow> panic + Image" where
  "NewRGBA r =
     (if Dx r < 0 \<or> Dy r < 0 \<or> 4 * Dx r * Dy r \<ge> 2 ^ 63 then Inl HugeOrNegativeDimensions
      else Inr \<lparr>dyn_type = RGBA, Bounds = r, Pix = replicate (nat (4 * Dx r * Dy r)) 0\<rparr>)"

text \<open>
  \<open>draw.Draw(dst, b, m, b.Min, draw.Src)\<close> overwrites the bytes of \<open>dst.Pix\<close> in place:
  the buffer keeps its length, and \<open>drawn\<close> (a parameter) gives the byte written at each
  index.
\<close>

definition draw_Draw ::
  "(Image \<Rightarrow> nat \<Rightarrow> byte) \<Rightarrow> Image \<Rightarrow> Image \<Rightarrow> Image" where
  "draw_Draw drawn dst m = dst\<lparr>Pix := map (drawn m) [0..<length (Pix dst)]\<rparr>"

text \<open>
  The loop under the comment \<open>Convert RGBA => BGRA\<close>:
  \<^verbatim>\<open>for i, iEnd := 0, len(pix)/4; i < iEnd; i += 4 {
    pix[(4*i)+0], pix[(4*i)+2] = pix[(4*i)+2], pix[(4*i)+0]
}\<close>
  Go evaluates the two right-hand sides first (reading index \<open>4*i+2\<close>, then \<open>4*i+0\<close>)
  and then assigns left to right (writing \<open>4*i+0\<close>, then \<open>4*i+2\<close>); an index outside
  the slice panics. The model keeps the log of the indices accessed, in that order. The
  counter is a \<open>nat\<close>: \<open>i < len(pix)/4\<close> keeps \<open>4*i+2\<close> below \<open>len(pix)\<close>, far from the
  range where Go's \<open>int\<close> wraps.
\<close>

function swap_loop :: "nat \<Rightarrow> nat \<Rightarrow> byte list \<Rightarrow> nat list \<Rightarrow> panic + (byte list \<times> nat list)" where
  "swap_loop i iEnd pix log =
     (if i < iEnd then
        (if (4 * i) + 2 < length pix \<and> (4 * i) + 0 < length pix then
           swap_loop (i + 4) iEnd
             (pix[(4 * i) + 0 := pix ! ((4 * i) + 2), (4 * i) + 2 := pix ! ((4 * i) + 0)])
             (log @ [(4 * i) + 2, (4 * i) + 0, (4 * i) + 0, (4 * i) + 2])
         else Inl (IndexOutOfRange ((4 * i) + 2) (length pix)))
      else Inr (pix, log))"
  by pat_completeness auto
termination
  by (relation "measure (\<lambda>(i, iEnd, pix, log). iEnd - i)") auto

declare swap_loop.simps [simp del]

definition RGBA_to_BGRA :: "byte list \<Rightarrow> panic + (byte list \<times> nat list)" where
  "RGBA_to_BGRA pix = swap_loop 0 (length pix div 4) pix []"

text \<open>
  What \<open>decode\<close> returns, and what it leaves in the pixel buffer it swapped (\<open>None\<close> when
  \<open>pix\<close> stayed \<open>nil\<close>). A \<open>Pix\<close> that is \<open>nil\<close> and one that is empty behave alike: the
  loop body never runs.
\<close>

record 'e decode_result =
  numBytes :: uint64
  retErr :: "'e go_error option"
  pix_after :: "byte list option"

text \<open>
  \<open>uint64(b.Dx())\<close> keeps the 64 bits of the \<open>int\<close>; \<open>n *= 4\<close> wraps.
\<close>

definition decode ::
  "(byte list \<Rightarrow> 'e + Image) \<Rightarrow> (Image \<Rightarrow> nat \<Rightarrow> byte) \<Rightarrow> byte list \<Rightarrow> panic + 'e decode_result" where
  "decode jpeg_Decode drawn src =
     (case jpeg_Decode src of
        Inl err \<Rightarrow> Inr \<lparr>numBytes = 0, retErr = Some (Propagated err), pix_after = None\<rparr>
      | Inr m0 \<Rightarrow>
          (let b = Bounds m0;
               n = (word_of_int (Dx b) :: uint64) * word_of_int (Dy b);
               converted =
                 (if dyn_type m0 = YCbCr then
                    (case NewRGBA b of
                       Inl p \<Rightarrow> Inl p
                     | Inr dst \<Rightarrow> Inr (draw_Draw drawn dst m0))
                  else Inr m0)
           in case converted of
                Inl p \<Rightarrow> Inl p
              | Inr m \<Rightarrow>
                  (case dyn_type m of
                     Gray \<Rightarrow> Inr \<lparr>numBytes = n * 1, retErr = None, pix_after = None\<rparr>
                   | RGBA \<Rightarrow>
                       (case RGBA_to_BGRA (Pix m) of
                          Inl p \<Rightarrow> Inl p
                        | Inr (pix', log) \<Rightarrow>
                            Inr \<lparr>numBytes = n * 4, retErr = None, pix_after = Some pix'\<rparr>)
                   | YCbCr \<Rightarrow>
                       Inr \<lparr>numBytes = 0, retErr = Some (UnexpectedImageType ''*image.YCbCr''),
                            pix_after = None\<rparr>
                   | OtherType t \<Rightarrow>
                       Inr \<lparr>numBytes = 0, retErr = Some (UnexpectedImageType t),
                            pix_after = None\<rparr>)))"

text \<open>
  A JPEG frame header stores width and height in 16 bits each, so the bounds of an image
  that \<open>jpeg.Decode\<close> returns are between 0 and 65535 wide and high.
\<close>

definition jpeg_bounds :: "Rectangle \<Rightarrow> bool" where
  "jpeg_bounds r = (0 \<le> Dx r \<and> Dx r \<le> 65535 \<and> 0 \<le> Dy r \<and> Dy r \<le> 65535)"

text \<open>
  The indices the loop touches from counter value \<open>i\<close> on: \<open>16*k\<close> and \<open>16*k+2\<close>
  for the \<open>k\<close> with \<open>i \<le> 4*k < iEnd\<close>.
\<close>

definition touched :: "nat \<Rightarrow> nat \<Rightarrow> nat \<Rightarrow> bool" where
  "touched i iEnd j = (\<exists>k. i \<le> 4 * k \<and> 4 * k < iEnd \<and> (j = 16 * k \<or> j = 16 * k + 2))"

section \<open>Random Access Compression: the core of the format\<close>

text \<open>
  The usage text of \<open>ractool\<close> (\<open>usageStr\<close> in \<open>cmd/ractool/data.go\<close>) is the only part
  of the RAC tool kept with the sources: it names the codecs, the flags and their
  defaults. The library that partitions, indexes and decodes is not among the source
  files, so the components below follow the specification's description of them.
\<close>

subsection \<open>Codecs and flags, from the usage text\<close>

text \<open>The codecs listed under \<open>Codecs:\<close>.\<close>

datatype codec = Lz4 | Zlib | Zstd

text \<open>
  \<open>Only zlib is fully supported. The others ... (1) don't support -cchunksize, only
  -dchunksize, and (2) don't support -resources.\<close>
\<close>

definition supports_cchunksize :: "codec \<Rightarrow> bool" where
  "supports_cchunksize c = (c = Zlib)"

definition supports_resources :: "codec \<Rightarrow> bool" where
  "supports_resources c = (c = Zlib)"

datatype index_location = AtStart | AtEnd

text \<open>
  The encode-related flags. A chunk size of zero means the flag was not given:
  \<open>By default (if both -cchunksize and -dchunksize are zero), a 64KiB -dchunksize is
  used.\<close>
\<close>

record encode_config =
  cfg_codec :: codec
  cchunksize :: nat
  dchunksize :: nat
  cpagesize :: nat
  indexlocation :: index_location
  resources :: "byte list list"

definition default_dchunksize :: nat where
  "default_dchunksize = 65536"

subsection \<open>CodecAdapter\<close>

text \<open>Modelled from the spec: the four kinds of error of the error handling design.\<close>

datatype rac_error = ConfigError | FormatError | RangeError | IOError

text \<open>
  Modelled from the spec: a codec plugin, which the specification treats as opaque. It
  compresses and decompresses a chunk with a dictionary (empty when the chunk has none);
  \<open>decompress\<close> is \<open>None\<close> on bytes that are not valid for the codec. \<open>fit\<close> is what a codec
  with CSpace sizing adds: the number of leading plain bytes to put into the next chunk
  for a target compressed size. \<open>pick_dictionary\<close> names the shared dictionary a chunk is
  compressed with, if any.
\<close>

record codec_plugin =
  compress :: "byte list \<Rightarrow> byte list \<Rightarrow> byte list"
  decompress :: "byte list \<Rightarrow> byte list \<Rightarrow> byte list option"
  fit :: "nat \<Rightarrow> byte list \<Rightarrow> nat"
  pick_dictionary :: "byte list list \<Rightarrow> byte list \<Rightarrow> nat option"

text \<open>
  Modelled from the spec: \<open>CodecAdapter.decompress(codecID, dict, compressedBytes,
  expectedPlainLength)\<close> fails with a FormatError when the bytes are invalid for the codec
  or the produced length is not the expected one.
\<close>

definition CodecAdapter_decompress ::
  "(codec \<Rightarrow> codec_plugin) \<Rightarrow> codec \<Rightarrow> byte list \<Rightarrow> byte list \<Rightarrow> nat \<Rightarrow> rac_error + byte list" where
  "CodecAdapter_decompress plugins c dict compressed expected =
     (case decompress (plugins c) dict compressed of
        None \<Rightarrow> Inl FormatError
      | Some plain \<Rightarrow> if length plain = expected then Inr plain else Inl FormatError)"

text \<open>
  Modelled from the spec: \<open>CodecAdapter.compress(codecID, dict, plainBytes)\<close> hands the chunk
  to the codec's plugin.
\<close>

definition CodecAdapter_compress ::
  "(codec \<Rightarrow> codec_plugin) \<Rightarrow> codec \<Rightarrow> byte list \<Rightarrow> byte list \<Rightarrow> byte list" where
  "CodecAdapter_compress plugins c dict plain = compress (plugins c) dict plain"

subsection \<open>ChunkPlanner\<close>

text \<open>
  Modelled from the spec: the target chunk size, in DSpace (plain) or CSpace (compressed)
  bytes.
\<close>

datatype chunk_target = DSpaceTarget nat | CSpaceTarget nat

text \<open>
  Modelled from the spec: which target the flags ask for. A non-zero \<open>-cchunksize\<close> is an
  explicit demand for CSpace sizing, rejected with a ConfigError on a codec without that
  capability; otherwise the target is \<open>-dchunksize\<close>, 64KiB when that flag is zero too.
\<close>

definition chunk_target_of :: "encode_config \<Rightarrow> rac_error + chunk_target" where
  "chunk_target_of cfg =
     (if cchunksize cfg \<noteq> 0 then
        (if supports_cchunksize (cfg_codec cfg) then Inr (CSpaceTarget (cchunksize cfg))
         else Inl ConfigError)
      else if dchunksize cfg = 0 then Inr (DSpaceTarget default_dchunksize)
      else Inr (DSpaceTarget (dchunksize cfg)))"

text \<open>
  Modelled from the spec: the partition of the input. \<open>next_size\<close> gives the length of
  the next chunk from the bytes that remain; a chunk takes at least one byte and at most
  what remains, so the final chunk may be shorter and an empty input gives no chunk.
\<close>

function partition_by :: "(byte list \<Rightarrow> nat) \<Rightarrow> byte list \<Rightarrow> byte list list" where
  "partition_by next_size data =
     (if data = [] then []
      else (let n = max 1 (min (length data) (next_size data))
            in take n data # partition_by next_size (drop n data)))"
  by pat_completeness auto
termination
  by (relation "measure (\<lambda>(next_size, data). length data)") auto

declare partition_by.simps [simp del]

text \<open>
  Modelled from the spec: DSpace targeting cuts the input every \<open>n\<close> plain bytes, for every
  codec. CSpace targeting asks the codec; on a codec without the capability it falls back
  to fixed DSpace-sized chunks.
\<close>

fun ChunkPlanner ::
  "(codec \<Rightarrow> codec_plugin) \<Rightarrow> codec \<Rightarrow> chunk_target \<Rightarrow> byte list \<Rightarrow> byte list list" where
  "ChunkPlanner plugins c (DSpaceTarget n) data = partition_by (\<lambda>rest. n) data"
| "ChunkPlanner plugins c (CSpaceTarget n) data =
     (if supports_cchunksize c then partition_by (fit (plugins c) n) data
      else partition_by (\<lambda>rest. n) data)"

subsection \<open>Chunks and the index\<close>

text \<open>
  Modelled from the spec: an IndexEntry, the persisted form of a Chunk: its range in
  DSpace, its range in CSpace, the codec and the optional dictionary id.
\<close>

record index_entry =
  DOffset :: nat
  DLength :: nat
  COffset :: nat
  CLength :: nat
  entry_codec :: codec
  dict_id :: "nat option"

text \<open>
  Modelled from the spec: an IndexNode is a leaf holding entries or a branch holding, for
  each child, the child's DOffset lower bound and the child.
\<close>

datatype index_node = Leaf "index_entry list" | Branch "(nat \<times> index_node) list"

text \<open>
  Modelled from the spec: a RAC file: the chunk payload bytes, one index, and where the
  index lies. \<open>magic_ok\<close> says that the file starts with the format's magic and version
  (the specification fixes neither value); \<open>dictionaries\<close> are the shared dictionaries
  by id.
\<close>

record rac_file =
  magic_ok :: bool
  location :: index_location
  root :: index_node
  payload :: "byte list"
  dictionaries :: "byte list list"

subsection \<open>Encoding: compress, pad, lay out\<close>

text \<open>A chunk on its way to the file: plain bytes, compressed bytes, dictionary id.\<close>

type_synonym packed_chunk = "byte list \<times> byte list \<times> nat option"

text \<open>
  Modelled from the spec: the bytes of the dictionary with a given id in the
  ResourceDictionaryStore; a chunk with no id has the empty dictionary.
\<close>

definition dictionary_of :: "byte list list \<Rightarrow> nat option \<Rightarrow> byte list" where
  "dictionary_of dicts did = (case did of None \<Rightarrow> [] | Some i \<Rightarrow> dicts ! i)"

text \<open>
  Modelled from the spec: one chunk is compressed on its own, with the dictionary the
  codec picks among the loaded ones (an id outside the store counts as no dictionary).
\<close>

definition compress_chunk ::
  "(codec \<Rightarrow> codec_plugin) \<Rightarrow> codec \<Rightarrow> byte list list \<Rightarrow> byte list \<Rightarrow> packed_chunk" where
  "compress_chunk plugins c dicts plain =
     (let did = (case pick_dictionary (plugins c) dicts plain of
                   None \<Rightarrow> None
                 | Some i \<Rightarrow> if i < length dicts then Some i else None)
      in (plain, CodecAdapter_compress plugins c (dictionary_of dicts did) plain, did))"

text \<open>
  Modelled from the spec: PagePadder. With a page size \<open>p > 0\<close>, a chunk of \<open>c\<close> bytes
  at offset \<open>off\<close> spans \<open>pages_spanned p off c\<close> pages; it is moved to the next page
  boundary when that makes it span fewer. A page size of zero disables padding.
\<close>

definition pages_spanned :: "nat \<Rightarrow> nat \<Rightarrow> nat \<Rightarrow> nat" where
  "pages_spanned p off c = (off + c - 1) div p - off div p + 1"

definition PagePadder :: "nat \<Rightarrow> nat \<Rightarrow> nat \<Rightarrow> nat" where
  "PagePadder p off c =
     (if p = 0 \<or> c = 0 \<or> off mod p = 0 then 0
      else if pages_spanned p (off + (p - off mod p)) c < pages_spanned p off c
           then p - off mod p
      else 0)"

text \<open>
  Modelled from the spec: the chunks are laid out one after the other, each after its
  padding; the entry of a chunk records where it went. The DSpace offset is the running
  total of the lengths before it.
\<close>

fun layout ::
  "nat \<Rightarrow> codec \<Rightarrow> nat \<Rightarrow> nat \<Rightarrow> packed_chunk list \<Rightarrow> index_entry list \<times> byte list" where
  "layout p c coff doff [] = ([], [])"
| "layout p c coff doff ((plain, compressed, did) # rest) =
     (let pad = PagePadder p coff (length compressed);
          e = \<lparr>DOffset = doff, DLength = length plain, COffset = coff + pad,
               CLength = length compressed, entry_codec = c, dict_id = did\<rparr>;
          (es, bytes) = layout p c (coff + pad + length compressed) (doff + length plain) rest
      in (e # es, replicate pad 0 @ compressed @ bytes))"


subsection \<open>IndexBuilder\<close>

text \<open>
  Modelled from the spec: a node holds at most \<open>m\<close> entries, so a longer sequence is cut
  into consecutive groups of at most \<open>m\<close>.
\<close>

function groups :: "nat \<Rightarrow> 'a list \<Rightarrow> 'a list list" where
  "groups m xs = (if m = 0 \<or> xs = [] then [] else take m xs # groups m (drop m xs))"
  by pat_completeness auto
termination
  by (relation "measure (\<lambda>(m, xs). length xs)") auto

declare groups.simps [simp del]

text \<open>Modelled from the spec: the entries under a node, in DOffset order.\<close>

fun entries_of :: "index_node \<Rightarrow> index_entry list" where
  "entries_of (Leaf es) = es"
| "entries_of (Branch children) = concat (map (\<lambda>child. entries_of (snd child)) children)"

text \<open>
  Modelled from the spec: the DOffset lower bound a branch stores for a child, that of the
  child's first entry.
\<close>

definition lower_bound :: "index_node \<Rightarrow> nat" where
  "lower_bound n = (case entries_of n of [] \<Rightarrow> 0 | e # es \<Rightarrow> DOffset e)"

text \<open>
  Modelled from the spec: nodes that are too many for one branch are grouped under
  branches of at most \<open>m\<close> children, level after level, until one node holds them.
\<close>

function build_level :: "nat \<Rightarrow> (nat \<times> index_node) list \<Rightarrow> index_node" where
  "build_level m children =
     (if m < 2 \<or> length children \<le> m then Branch children
      else build_level m (map (\<lambda>g. (fst (hd g), Branch g)) (groups m children)))"
  by pat_completeness auto
termination
proof (relation "measure (\<lambda>(m, children). length children)")
  show "wf (measure (\<lambda>(m, children). length children))" by simp
next
  fix m :: nat and children :: "(nat \<times> index_node) list"
  assume a: "\<not> (m < 2 \<or> length children \<le> m)"
  have bound: "length (groups k xs) + length (groups k xs) \<le> length xs + 1"
    if "2 \<le> k" for k and xs :: "(nat \<times> index_node) list"
    using that
  proof (induction k xs rule: groups.induct)
    case (1 k xs)
    show ?case
    proof (cases "xs = []")
      case True
      then show ?thesis by (simp add: groups.simps [of k "[]"])
    next
      case False
      with 1 have ih: "length (groups k (drop k xs)) + length (groups k (drop k xs))
          \<le> length (drop k xs) + 1" by simp
      have g: "groups k xs = take k xs # groups k (drop k xs)"
        using False "1.prems" by (simp add: groups.simps [of k xs])
      show ?thesis
      proof (cases "length xs \<le> k")
        case True
        then have "groups k (drop k xs) = []" by (simp add: groups.simps [of k "[]"])
        with g False show ?thesis by (cases xs) simp_all
      next
        case False
        with ih g "1.prems" show ?thesis by simp
      qed
    qed
  qed
  from a have "2 \<le> m" "m < length children" by simp_all
  with bound [of m children] have "length (groups m children) < length children" by arith
  then show "((m, map (\<lambda>g. (fst (hd g), Branch g)) (groups m children)), (m, children))
       \<in> measure (\<lambda>(m, children). length children)" by simp
qed

declare build_level.simps [simp del]

text \<open>
  Modelled from the spec: IndexBuilder. The entries fit one leaf while they are at most
  \<open>m\<close>, the maximum entry count of a node; beyond that they are split into leaves under
  a tree of branches.
\<close>

definition IndexBuilder :: "nat \<Rightarrow> index_entry list \<Rightarrow> index_node" where
  "IndexBuilder m es =
     (if m < 2 \<or> length es \<le> m then Leaf es
      else build_level m (map (\<lambda>g. (DOffset (hd g), Leaf g)) (groups m es)))"

text \<open>
  Modelled from the spec: encoding. The configuration is checked before anything is
  compressed; dictionaries are used only with a codec that supports them; the index is
  placed where the flag says.
\<close>

definition encode ::
  "(codec \<Rightarrow> codec_plugin) \<Rightarrow> nat \<Rightarrow> encode_config \<Rightarrow> byte list \<Rightarrow> rac_error + rac_file" where
  "encode plugins m cfg data =
     (case chunk_target_of cfg of
        Inl err \<Rightarrow> Inl err
      | Inr target \<Rightarrow>
          (let c = cfg_codec cfg;
               dicts = (if supports_resources c then resources cfg else []);
               pieces = ChunkPlanner plugins c target data;
               packed = map (compress_chunk plugins c dicts) pieces;
               (es, bytes) = layout (cpagesize cfg) c 0 0 packed
           in Inr \<lparr>magic_ok = True, location = indexlocation cfg, root = IndexBuilder m es,
                   payload = bytes, dictionaries = dicts\<rparr>))"

subsection \<open>IndexReader\<close>

text \<open>
  Modelled from the spec: the checks of IndexReader. The entries are DOffset-contiguous
  from \<open>d\<close>; their DOffsets are strictly increasing; an entry's compressed range lies
  within the payload and its dictionary id within the store; a branch records, for each
  child, the child's lower bound.
\<close>

fun contiguous_from :: "nat \<Rightarrow> index_entry list \<Rightarrow> bool" where
  "contiguous_from d [] = True"
| "contiguous_from d (e # es) = (DOffset e = d \<and> contiguous_from (d + DLength e) es)"

fun strictly_increasing :: "index_entry list \<Rightarrow> bool" where
  "strictly_increasing [] = True"
| "strictly_increasing [e] = True"
| "strictly_increasing (e # e' # es) = (DOffset e < DOffset e' \<and> strictly_increasing (e' # es))"

definition within_extent :: "rac_file \<Rightarrow> index_entry \<Rightarrow> bool" where
  "within_extent f e =
     (COffset e + CLength e \<le> length (payload f) \<and>
      (case dict_id e of None \<Rightarrow> True | Some i \<Rightarrow> i < length (dictionaries f)))"

fun bounds_recorded :: "index_node \<Rightarrow> bool" where
  "bounds_recorded (Leaf es) = True"
| "bounds_recorded (Branch children) =
     list_all (\<lambda>child. fst child = lower_bound (snd child) \<and> bounds_recorded (snd child)) children"

text \<open>
  Modelled from the spec: IndexReader checks the magic and version, loads the nodes
  under the root into the chunk table and rejects, with a FormatError, an index whose
  entries are not DOffset-contiguous, not strictly increasing, or reach beyond the file.
\<close>

definition IndexReader :: "rac_file \<Rightarrow> rac_error + index_entry list" where
  "IndexReader f =
     (if \<not> magic_ok f then Inl FormatError
      else (let es = entries_of (root f)
            in if bounds_recorded (root f) \<and> contiguous_from 0 es \<and> strictly_increasing es \<and>
                  list_all (within_extent f) es
               then Inr es else Inl FormatError))"

text \<open>Modelled from the spec: TotalDSize, the length of the decompressed content.\<close>

definition TotalDSize :: "index_entry list \<Rightarrow> nat" where
  "TotalDSize es = sum_list (map DLength es)"

subsection \<open>RangeResolver\<close>

text \<open>
  Modelled from the spec: a DecodeRequest, the DSpace range \<open>[start, end)\<close> with either
  bound omissible; an entry meets the range when the two have a byte in common.
\<close>

record decode_request =
  range_start :: "nat option"
  range_end :: "nat option"

definition intersects :: "nat \<Rightarrow> nat \<Rightarrow> index_entry \<Rightarrow> bool" where
  "intersects s e c = (max s (DOffset c) < min e (DOffset c + DLength c))"

text \<open>
  Modelled from the spec: RangeResolver gives the entries, in order, whose DSpace ranges
  meet \<open>[start, end)\<close>; \<open>start\<close> defaults to 0 and \<open>end\<close> to TotalDSize. A range with
  \<open>start > end\<close> or a bound beyond TotalDSize is a RangeError.
\<close>

definition RangeResolver ::
  "index_entry list \<Rightarrow> decode_request \<Rightarrow> rac_error + (nat \<times> nat \<times> index_entry list)" where
  "RangeResolver table req =
     (let s = (case range_start req of None \<Rightarrow> 0 | Some v \<Rightarrow> v);
          e = (case range_end req of None \<Rightarrow> TotalDSize table | Some v \<Rightarrow> v)
      in if s > e \<or> s > TotalDSize table \<or> e > TotalDSize table then Inl RangeError
         else Inr (s, e, filter (intersects s e) table))"

subsection \<open>DecodeScheduler, on a single execution path\<close>

text \<open>
  Modelled from the spec: decoding one chunk fetches its compressed bytes and
  has CodecAdapter decompress them, with the chunk's dictionary, to the chunk's DLength.
  A dictionary id outside the store is a FormatError.
\<close>

definition fetch :: "rac_file \<Rightarrow> index_entry \<Rightarrow> byte list" where
  "fetch f c = take (CLength c) (drop (COffset c) (payload f))"

definition decode_chunk ::
  "(codec \<Rightarrow> codec_plugin) \<Rightarrow> rac_file \<Rightarrow> index_entry \<Rightarrow> rac_error + byte list" where
  "decode_chunk plugins f c =
     (case dict_id c of
        None \<Rightarrow> CodecAdapter_decompress plugins (entry_codec c) [] (fetch f c) (DLength c)
      | Some i \<Rightarrow>
          if i < length (dictionaries f)
          then CodecAdapter_decompress plugins (entry_codec c) (dictionaries f ! i) (fetch f c)
                 (DLength c)
          else Inl FormatError)"

text \<open>
  Modelled from the spec: the plain bytes of a chunk trimmed to the requested range
  \<open>[s, e)\<close>.
\<close>

definition trim :: "nat \<Rightarrow> nat \<Rightarrow> index_entry \<Rightarrow> byte list \<Rightarrow> byte list" where
  "trim s e c plain =
     take (min e (DOffset c + DLength c) - max s (DOffset c)) (drop (max s (DOffset c) - DOffset c) plain)"

text \<open>
  Modelled from the spec: single-threaded mode decodes the chunks in DOffset order and
  writes each chunk's bytes, trimmed to the range, to the sink right away. A chunk that
  fails to decode aborts the request; what the sink already holds stays. The result is
  the sink and the error, if any.
\<close>

fun DecodeScheduler ::
  "(codec \<Rightarrow> codec_plugin) \<Rightarrow> rac_file \<Rightarrow> nat \<Rightarrow> nat \<Rightarrow> index_entry list \<Rightarrow> byte list \<Rightarrow>
     byte list \<times> rac_error option" where
  "DecodeScheduler plugins f s e [] sink = (sink, None)"
| "DecodeScheduler plugins f s e (c # cs) sink =
     (case decode_chunk plugins f c of
        Inl err \<Rightarrow> (sink, Some err)
      | Inr plain \<Rightarrow> DecodeScheduler plugins f s e cs (sink @ trim s e c plain))"

text \<open>
  Modelled from the spec: decoding a request: IndexReader, then RangeResolver, then the
  scheduler. An error of the first two is raised before any chunk is read.
\<close>

definition rac_decode ::
  "(codec \<Rightarrow> codec_plugin) \<Rightarrow> rac_file \<Rightarrow> decode_request \<Rightarrow> byte list \<times> rac_error option" where
  "rac_decode plugins f req =
     (case IndexReader f of
        Inl err \<Rightarrow> ([], Some err)
      | Inr table \<Rightarrow>
          (case RangeResolver table req of
             Inl err \<Rightarrow> ([], Some err)
           | Inr (s, e, chunks) \<Rightarrow> DecodeScheduler plugins f s e chunks []))"

text \<open>A codec is lossless: what it compressed, it decompresses, with the same dictionary.\<close>

definition lossless :: "(codec \<Rightarrow> codec_plugin) \<Rightarrow> bool" where
  "lossless plugins =
     (\<forall>c dict plain. decompress (plugins c) dict (compress (plugins c) dict plain) = Some plain)"

text \<open>The part of \<open>xs\<close>, bytes that lie at DSpace offset \<open>d\<close>, inside the range \<open>[s, e)\<close>.\<close>

definition clip :: "nat \<Rightarrow> nat \<Rightarrow> nat \<Rightarrow> byte list \<Rightarrow> byte list" where
  "clip s e d xs = take (min e (d + length xs) - max s d) (drop (max s d - d) xs)"

text \<open>
  A small lossless codec for the examples: the compressed form of a chunk is a zero byte
  followed by the chunk reversed.
\<close>

definition reversing :: "codec \<Rightarrow> codec_plugin" where
  "reversing c =
     \<lparr>compress = (\<lambda>dict plain. 0 # rev plain),
      decompress = (\<lambda>dict compressed.
         case compressed of [] \<Rightarrow> None | h # t \<Rightarrow> if h = 0 then Some (rev t) else None),
      fit = (\<lambda>target rest. target - 1),
      pick_dictionary = (\<lambda>dicts plain. None)\<rparr>"

definition sample_config :: encode_config where
  "sample_config =
     \<lparr>cfg_codec = Zstd, cchunksize = 0, dchunksize = 3, cpagesize = 8, indexlocation = AtEnd,
      resources = []\<rparr>"

definition sample_data :: "byte list" where
  "sample_data = [10, 11, 12, 13, 14, 15, 16, 17, 18, 19, 20]"

section \<open>The channel-swap loop\<close>

lemma touched_step:
  assumes "i = 4 * k0" "i < iEnd"
  shows "touched i iEnd j = (j = 4 * i \<or> j = 4 * i + 2 \<or> touched (i + 4) iEnd j)"
proof
  assume "touched i iEnd j"
  then obtain k where k: "i \<le> 4 * k" "4 * k < iEnd" "j = 16 * k \<or> j = 16 * k + 2"
    unfolding touched_def by blast
  show "j = 4 * i \<or> j = 4 * i + 2 \<or> touched (i + 4) iEnd j"
  proof (cases "k = k0")
    case True
    then show ?thesis using k assms by auto
  next
    case False
    with k assms have "i + 4 \<le> 4 * k" by arith
    then show ?thesis using k unfolding touched_def by blast
  qed
next
  assume r: "j = 4 * i \<or> j = 4 * i + 2 \<or> touched (i + 4) iEnd j"
  show "touched i iEnd j"
  proof (cases "touched (i + 4) iEnd j")
    case True
    then obtain k where "i + 4 \<le> 4 * k" "4 * k < iEnd" "j = 16 * k \<or> j = 16 * k + 2"
      unfolding touched_def by blast
    then have "i \<le> 4 * k \<and> 4 * k < iEnd \<and> (j = 16 * k \<or> j = 16 * k + 2)" by simp
    then show ?thesis unfolding touched_def by blast
  next
    case False
    with r have "j = 16 * k0 \<or> j = 16 * k0 + 2" using assms by simp
    moreover have "i \<le> 4 * k0" "4 * k0 < iEnd" using assms by simp_all
    ultimately show ?thesis unfolding touched_def by blast
  qed
qed

lemma touched_done: "\<not> i < iEnd \<Longrightarrow> \<not> touched i iEnd j"
  unfolding touched_def by auto

lemma touched_later: "touched (i + 4) iEnd j \<Longrightarrow> 4 * i + 4 < j"
  unfolding touched_def by auto


lemma swap_loop_ok:
  "iEnd \<le> length pix div 4 \<Longrightarrow> i = 4 * k0 \<Longrightarrow>
   \<exists>pix' log'. swap_loop i iEnd pix log = Inr (pix', log') \<and> length pix' = length pix \<and>
     (\<forall>j \<in> set log'. j \<in> set log \<or> touched i iEnd j) \<and>
     (\<forall>j. \<not> touched i iEnd j \<longrightarrow> pix' ! j = pix ! j) \<and>
     (\<forall>k. i \<le> 4 * k \<and> 4 * k < iEnd \<longrightarrow>
        16 * k + 2 < length pix \<and> pix' ! (16 * k) = pix ! (16 * k + 2) \<and>
        pix' ! (16 * k + 2) = pix ! (16 * k))"
proof (induction i iEnd pix log arbitrary: k0 rule: swap_loop.induct)
  case (1 i iEnd pix log)
  show ?case
  proof (cases "i < iEnd")
    case False
    then have stop: "swap_loop i iEnd pix log = Inr (pix, log)"
      by (simp add: swap_loop.simps [of i iEnd pix log])
    have none: "\<forall>k. \<not> (i \<le> 4 * k \<and> 4 * k < iEnd)" using False by arith
    show ?thesis using stop none touched_done [OF False] by auto
  next
    case True
    let ?pix1 = "pix[(4 * i) + 0 := pix ! ((4 * i) + 2), (4 * i) + 2 := pix ! ((4 * i) + 0)]"
    let ?log1 = "log @ [(4 * i) + 2, (4 * i) + 0, (4 * i) + 0, (4 * i) + 2]"
    from True "1.prems" have inb: "4 * i + 2 < length pix" "4 * i + 0 < length pix"
      by arith+
    have len1: "length ?pix1 = length pix" by simp
    have nxt: "i + 4 = 4 * (k0 + 1)" using "1.prems"(2) by simp
    have bnd: "iEnd \<le> length ?pix1 div 4" using "1.prems"(1) by simp
    from "1.IH" [OF True _ bnd nxt] inb
    obtain pix' log' where
      run: "swap_loop (i + 4) iEnd ?pix1 ?log1 = Inr (pix', log')" and
      len: "length pix' = length ?pix1" and
      lg: "\<forall>j \<in> set log'. j \<in> set ?log1 \<or> touched (i + 4) iEnd j" and
      same: "\<forall>j. \<not> touched (i + 4) iEnd j \<longrightarrow> pix' ! j = ?pix1 ! j" and
      sw: "\<forall>k. i + 4 \<le> 4 * k \<and> 4 * k < iEnd \<longrightarrow>
             16 * k + 2 < length ?pix1 \<and> pix' ! (16 * k) = ?pix1 ! (16 * k + 2) \<and>
             pix' ! (16 * k + 2) = ?pix1 ! (16 * k)"
      by blast
    have step: "swap_loop i iEnd pix log = swap_loop (i + 4) iEnd ?pix1 ?log1"
      using True inb by (subst swap_loop.simps) simp
    have ts: "\<And>j. touched i iEnd j = (j = 4 * i \<or> j = 4 * i + 2 \<or> touched (i + 4) iEnd j)"
      using touched_step [OF "1.prems"(2) True] by blast
    have c1: "\<forall>j \<in> set log'. j \<in> set log \<or> touched i iEnd j"
    proof
      fix j assume "j \<in> set log'"
      with lg have "j \<in> set ?log1 \<or> touched (i + 4) iEnd j" by blast
      then have "j \<in> set log \<or> j = 4 * i \<or> j = 4 * i + 2 \<or> touched (i + 4) iEnd j"
        by auto
      then show "j \<in> set log \<or> touched i iEnd j" using ts by blast
    qed
    have c2: "\<forall>j. \<not> touched i iEnd j \<longrightarrow> pix' ! j = pix ! j"
    proof (intro allI impI)
      fix j assume nt: "\<not> touched i iEnd j"
      then have a: "j \<noteq> 4 * i" "j \<noteq> 4 * i + 2" "\<not> touched (i + 4) iEnd j"
        using ts by blast+
      from same a(3) have "pix' ! j = ?pix1 ! j" by blast
      also have "\<dots> = pix ! j" using a(1,2) by simp
      finally show "pix' ! j = pix ! j" .
    qed
    have c3: "\<forall>k. i \<le> 4 * k \<and> 4 * k < iEnd \<longrightarrow>
        16 * k + 2 < length pix \<and> pix' ! (16 * k) = pix ! (16 * k + 2) \<and>
        pix' ! (16 * k + 2) = pix ! (16 * k)"
    proof (intro allI impI)
      fix k assume k: "i \<le> 4 * k \<and> 4 * k < iEnd"
      show "16 * k + 2 < length pix \<and> pix' ! (16 * k) = pix ! (16 * k + 2) \<and>
        pix' ! (16 * k + 2) = pix ! (16 * k)"
      proof (cases "k = k0")
        case True
        then have e: "4 * i = 16 * k" using "1.prems"(2) by simp
        have nt0: "\<not> touched (i + 4) iEnd (4 * i)"
          using touched_later [of i iEnd "4 * i"] by auto
        have nt2: "\<not> touched (i + 4) iEnd (4 * i + 2)"
          using touched_later [of i iEnd "4 * i + 2"] by auto
        have "pix' ! (4 * i) = ?pix1 ! (4 * i)" using same nt0 by blast
        also have "\<dots> = pix ! (4 * i + 2)" using inb by simp
        finally have s0: "pix' ! (4 * i) = pix ! (4 * i + 2)" .
        have "pix' ! (4 * i + 2) = ?pix1 ! (4 * i + 2)" using same nt2 by blast
        also have "\<dots> = pix ! (4 * i)" using inb by simp
        finally have s2: "pix' ! (4 * i + 2) = pix ! (4 * i)" .
        show ?thesis using s0 s2 inb unfolding e by simp
      next
        case False
        with k "1.prems"(2) have k4: "i + 4 \<le> 4 * k \<and> 4 * k < iEnd" by arith
        with sw have r: "16 * k + 2 < length ?pix1" "pix' ! (16 * k) = ?pix1 ! (16 * k + 2)"
            "pix' ! (16 * k + 2) = ?pix1 ! (16 * k)" by blast+
        from k4 have far: "4 * i + 2 < 16 * k" by arith
        have u0: "?pix1 ! (16 * k) = pix ! (16 * k)" using far by simp
        have u2: "?pix1 ! (16 * k + 2) = pix ! (16 * k + 2)" using far by simp
        show ?thesis using r u0 u2 by simp
      qed
    qed
    show ?thesis using step run len c1 c2 c3 by simp
  qed
qed


lemma RGBA_to_BGRA_total:
  "\<exists>pix' log. RGBA_to_BGRA pix = Inr (pix', log) \<and> length pix' = length pix"
  using swap_loop_ok [of "length pix div 4" pix 0 0 "[]"]
  unfolding RGBA_to_BGRA_def by auto

lemma jpeg_area:
  assumes "jpeg_bounds r"
  shows "0 \<le> Dx r * Dy r" and "Dx r * Dy r \<le> 4294836225"
proof -
  from assms have a: "0 \<le> Dx r" "Dx r \<le> 65535" "0 \<le> Dy r" "Dy r \<le> 65535"
    unfolding jpeg_bounds_def by simp_all
  show "0 \<le> Dx r * Dy r" using a by simp
  have "Dx r * Dy r \<le> 65535 * 65535" using a by (intro mult_mono) simp_all
  then show "Dx r * Dy r \<le> 4294836225" by simp
qed

lemma uint64_exact:
  assumes "0 \<le> a" "a \<le> 17179344900"
  shows "uint (word_of_int a :: uint64) = a"
proof -
  have "a < 2 ^ 64" using assms by simp
  then have "a mod 2 ^ 64 = a" using assms by simp
  then show ?thesis by (simp add: uint_word_of_int take_bit_eq_mod)
qed

lemma NewRGBA_jpeg:
  assumes "jpeg_bounds r"
  shows "NewRGBA r = Inr \<lparr>dyn_type = RGBA, Bounds = r, Pix = replicate (nat (4 * Dx r * Dy r)) 0\<rparr>"
proof -
  from assms have a: "0 \<le> Dx r" "0 \<le> Dy r" unfolding jpeg_bounds_def by simp_all
  from jpeg_area [OF assms] have "4 * Dx r * Dy r < 2 ^ 63" by simp
  then show ?thesis using a unfolding NewRGBA_def by simp
qed

text \<open>
  Claim C10. For every pixel buffer \<open>pix\<close>, the channel-swap loop of \<open>decode\<close> runs to its
  end without a panic. Every index it accesses is below \<open>len(pix)\<close> and has the form
  \<open>16*k\<close> or \<open>16*k+2\<close> with \<open>4*k < len(pix)/4\<close>; the buffer keeps its length; every byte at
  an index not of that form is unchanged; and at the indices of that form the bytes
  \<open>16*k\<close> and \<open>16*k+2\<close> are exchanged. So the loop swaps R and B of every fourth pixel only.
\<close>

theorem swap_loop_accesses:
  "\<exists>pix' log. RGBA_to_BGRA pix = Inr (pix', log) \<and> length pix' = length pix \<and>
     (\<forall>j \<in> set log. j < length pix \<and>
        (\<exists>k. 4 * k < length pix div 4 \<and> (j = 16 * k \<or> j = 16 * k + 2))) \<and>
     (\<forall>j. (\<forall>k. 4 * k < length pix div 4 \<longrightarrow> j \<noteq> 16 * k \<and> j \<noteq> 16 * k + 2) \<longrightarrow>
        pix' ! j = pix ! j) \<and>
     (\<forall>k. 4 * k < length pix div 4 \<longrightarrow>
        pix' ! (16 * k) = pix ! (16 * k + 2) \<and> pix' ! (16 * k + 2) = pix ! (16 * k))"
proof -
  let ?n = "length pix div 4"
  from swap_loop_ok [of ?n pix 0 0 "[]"]
  obtain pix' log where
    run: "swap_loop 0 ?n pix [] = Inr (pix', log)" and
    len: "length pix' = length pix" and
    lg: "\<forall>j \<in> set log. j \<in> set [] \<or> touched 0 ?n j" and
    same: "\<forall>j. \<not> touched 0 ?n j \<longrightarrow> pix' ! j = pix ! j" and
    sw: "\<forall>k. 0 \<le> 4 * k \<and> 4 * k < ?n \<longrightarrow>
           16 * k + 2 < length pix \<and> pix' ! (16 * k) = pix ! (16 * k + 2) \<and>
           pix' ! (16 * k + 2) = pix ! (16 * k)"
    by auto
  have t: "\<And>j. touched 0 ?n j = (\<exists>k. 4 * k < ?n \<and> (j = 16 * k \<or> j = 16 * k + 2))"
    unfolding touched_def by simp
  have c1: "\<forall>j \<in> set log. j < length pix \<and>
        (\<exists>k. 4 * k < ?n \<and> (j = 16 * k \<or> j = 16 * k + 2))"
  proof
    fix j assume "j \<in> set log"
    with lg have tj: "touched 0 ?n j" by simp
    then obtain k where k: "4 * k < ?n" "j = 16 * k \<or> j = 16 * k + 2"
      unfolding t by blast
    from sw k(1) have "16 * k + 2 < length pix" by simp
    with k(2) have "j < length pix" by auto
    with tj show "j < length pix \<and> (\<exists>k. 4 * k < ?n \<and> (j = 16 * k \<or> j = 16 * k + 2))"
      unfolding t by blast
  qed
  have c2: "\<forall>j. (\<forall>k. 4 * k < ?n \<longrightarrow> j \<noteq> 16 * k \<and> j \<noteq> 16 * k + 2) \<longrightarrow> pix' ! j = pix ! j"
  proof (intro allI impI)
    fix j assume "\<forall>k. 4 * k < ?n \<longrightarrow> j \<noteq> 16 * k \<and> j \<noteq> 16 * k + 2"
    then have "\<not> touched 0 ?n j" unfolding t by blast
    with same show "pix' ! j = pix ! j" by blast
  qed
  have c3: "\<forall>k. 4 * k < ?n \<longrightarrow>
        pix' ! (16 * k) = pix ! (16 * k + 2) \<and> pix' ! (16 * k + 2) = pix ! (16 * k)"
    using sw by simp
  show ?thesis unfolding RGBA_to_BGRA_def using run len c1 c2 c3 by blast
qed

text \<open>
  On a buffer of two pixels the first pixel has R and B exchanged and the second one
  (indices 4 to 7) is as it was.
\<close>

theorem swap_loop_accesses_witness:
  "\<exists>pix' log. RGBA_to_BGRA [1, 2, 3, 4, 5, 6, 7, 8] = Inr (pix', log) \<and> length pix' = 8 \<and>
     pix' ! 0 = 3 \<and> pix' ! 2 = 1 \<and> pix' ! 1 = 2 \<and> pix' ! 4 = 5 \<and> pix' ! 6 = 7"
proof -
  let ?pix = "[1, 2, 3, 4, 5, 6, 7, 8] :: byte list"
  from swap_loop_accesses [of ?pix]
  obtain pix' log where
    run: "RGBA_to_BGRA ?pix = Inr (pix', log)" and
    len: "length pix' = length ?pix" and
    same: "\<forall>j. (\<forall>k. 4 * k < length ?pix div 4 \<longrightarrow> j \<noteq> 16 * k \<and> j \<noteq> 16 * k + 2) \<longrightarrow>
        pix' ! j = ?pix ! j" and
    sw: "\<forall>k. 4 * k < length ?pix div 4 \<longrightarrow>
        pix' ! (16 * k) = ?pix ! (16 * k + 2) \<and> pix' ! (16 * k + 2) = ?pix ! (16 * k)"
    by blast
  have only0: "\<And>k::nat. 4 * k < length ?pix div 4 \<Longrightarrow> k = 0" by simp
  from sw [rule_format, of 0] have s: "pix' ! 0 = 3" "pix' ! 2 = 1"
    by (simp_all add: numeral_2_eq_2)
  have u1: "pix' ! 1 = 2" using same [rule_format, of 1] only0 by fastforce
  have u4: "pix' ! 4 = 5" using same [rule_format, of 4] only0 by fastforce
  have u6: "pix' ! 6 = 7" using same [rule_format, of 6] only0 by fastforce
  show ?thesis using run len s u1 u4 u6 by simp
qed


section \<open>What \<open>decode\<close> returns\<close>

lemma decode_error:
  assumes "jpeg_Decode src = Inl err"
  shows "decode jpeg_Decode drawn src =
           Inr \<lparr>numBytes = 0, retErr = Some (Propagated err), pix_after = None\<rparr>"
  using assms unfolding decode_def by simp

lemma decode_Gray:
  assumes "jpeg_Decode src = Inr m" "dyn_type m = Gray"
  shows "decode jpeg_Decode drawn src =
           Inr \<lparr>numBytes = word_of_int (Dx (Bounds m) * Dy (Bounds m)), retErr = None,
                pix_after = None\<rparr>"
  using assms unfolding decode_def by (simp add: Let_def)

lemma decode_Other:
  assumes "jpeg_Decode src = Inr m" "dyn_type m = OtherType t"
  shows "decode jpeg_Decode drawn src =
           Inr \<lparr>numBytes = 0, retErr = Some (UnexpectedImageType t), pix_after = None\<rparr>"
  using assms unfolding decode_def by (simp add: Let_def)

lemma decode_RGBA:
  assumes "jpeg_Decode src = Inr m" "dyn_type m = RGBA"
  shows "\<exists>pix' log. RGBA_to_BGRA (Pix m) = Inr (pix', log) \<and>
           decode jpeg_Decode drawn src =
             Inr \<lparr>numBytes = word_of_int (4 * Dx (Bounds m) * Dy (Bounds m)), retErr = None,
                  pix_after = Some pix'\<rparr>"
proof -
  from RGBA_to_BGRA_total [of "Pix m"] obtain pix' log where
    r: "RGBA_to_BGRA (Pix m) = Inr (pix', log)" by blast
  have "decode jpeg_Decode drawn src =
          Inr \<lparr>numBytes = word_of_int (Dx (Bounds m)) * word_of_int (Dy (Bounds m)) * 4,
               retErr = None, pix_after = Some pix'\<rparr>"
    using assms r unfolding decode_def by (simp add: Let_def)
  moreover have "(word_of_int (Dx (Bounds m)) * word_of_int (Dy (Bounds m)) * 4 :: uint64) =
      word_of_int (4 * Dx (Bounds m) * Dy (Bounds m))"
    by (simp add: mult.commute mult.left_commute)
  ultimately show ?thesis using r by simp
qed

lemma decode_YCbCr:
  assumes "jpeg_Decode src = Inr m" "dyn_type m = YCbCr" "jpeg_bounds (Bounds m)"
  shows "\<exists>pix' log.
           RGBA_to_BGRA (map (drawn m) [0..<nat (4 * Dx (Bounds m) * Dy (Bounds m))]) =
             Inr (pix', log) \<and>
           decode jpeg_Decode drawn src =
             Inr \<lparr>numBytes = word_of_int (4 * Dx (Bounds m) * Dy (Bounds m)), retErr = None,
                  pix_after = Some pix'\<rparr>"
proof -
  let ?buf = "map (drawn m) [0..<nat (4 * Dx (Bounds m) * Dy (Bounds m))]"
  from RGBA_to_BGRA_total [of ?buf] obtain pix' log where
    r: "RGBA_to_BGRA ?buf = Inr (pix', log)" by blast
  have "decode jpeg_Decode drawn src =
          Inr \<lparr>numBytes = word_of_int (Dx (Bounds m)) * word_of_int (Dy (Bounds m)) * 4,
               retErr = None, pix_after = Some pix'\<rparr>"
    using assms(1,2) r NewRGBA_jpeg [OF assms(3)]
    unfolding decode_def by (simp add: Let_def draw_Draw_def)
  moreover have "(word_of_int (Dx (Bounds m)) * word_of_int (Dy (Bounds m)) * 4 :: uint64) =
      word_of_int (4 * Dx (Bounds m) * Dy (Bounds m))"
    by (simp add: mult.commute mult.left_commute)
  ultimately show ?thesis using r by simp
qed

text \<open>
  Claim C9. For a source that \<open>jpeg.Decode\<close> accepts (so the image bounds are those of a
  JPEG frame), \<open>decode\<close> returns without a panic: \<open>(Dx*Dy, nil)\<close> for an \<open>*image.Gray\<close>,
  \<open>(4*Dx*Dy, nil)\<close> for an \<open>*image.RGBA\<close> and for an \<open>*image.YCbCr\<close> (drawn into a new RGBA
  image first), and \<open>(0, unexpected image type)\<close> for every other type. When \<open>jpeg.Decode\<close>
  fails, \<open>decode\<close> returns \<open>(0, that error)\<close>. The products are exact: they do not wrap in
  64 bits.
\<close>

theorem decode_numBytes:
  assumes "\<And>m. jpeg_Decode src = Inr m \<Longrightarrow> jpeg_bounds (Bounds m)"
  shows "case jpeg_Decode src of
           Inl err \<Rightarrow>
             (\<exists>r. decode jpeg_Decode drawn src = Inr r \<and> numBytes r = 0 \<and>
                  retErr r = Some (Propagated err))
         | Inr m \<Rightarrow>
             (case dyn_type m of
                Gray \<Rightarrow>
                  (\<exists>r. decode jpeg_Decode drawn src = Inr r \<and>
                       uint (numBytes r) = Dx (Bounds m) * Dy (Bounds m) \<and> retErr r = None)
              | RGBA \<Rightarrow>
                  (\<exists>r. decode jpeg_Decode drawn src = Inr r \<and>
                       uint (numBytes r) = 4 * Dx (Bounds m) * Dy (Bounds m) \<and> retErr r = None)
              | YCbCr \<Rightarrow>
                  (\<exists>r. decode jpeg_Decode drawn src = Inr r \<and>
                       uint (numBytes r) = 4 * Dx (Bounds m) * Dy (Bounds m) \<and> retErr r = None)
              | OtherType t \<Rightarrow>
                  (\<exists>r. decode jpeg_Decode drawn src = Inr r \<and> numBytes r = 0 \<and>
                       retErr r = Some (UnexpectedImageType t)))"
proof (cases "jpeg_Decode src")
  case (Inl err)
  then show ?thesis using decode_error [where jpeg_Decode = jpeg_Decode and src = src and drawn = drawn, OF Inl] by simp
next
  case (Inr m)
  from assms [OF Inr] have jb: "jpeg_bounds (Bounds m)" .
  from jpeg_area [OF jb] have area: "0 \<le> Dx (Bounds m) * Dy (Bounds m)"
    "Dx (Bounds m) * Dy (Bounds m) \<le> 4294836225" .
  have e1: "uint (word_of_int (Dx (Bounds m) * Dy (Bounds m)) :: uint64) =
      Dx (Bounds m) * Dy (Bounds m)"
    using area by (intro uint64_exact) simp_all
  have e4: "uint (word_of_int (4 * Dx (Bounds m) * Dy (Bounds m)) :: uint64) =
      4 * Dx (Bounds m) * Dy (Bounds m)"
    using area by (intro uint64_exact) simp_all
  show ?thesis
  proof (cases "dyn_type m")
    case Gray
    show ?thesis using decode_Gray [where jpeg_Decode = jpeg_Decode and src = src and drawn = drawn, OF Inr Gray] Inr Gray e1 by simp
  next
    case RGBA
    from decode_RGBA [where jpeg_Decode = jpeg_Decode and src = src and drawn = drawn, OF Inr RGBA] obtain pix' where
      "decode jpeg_Decode drawn src =
         Inr \<lparr>numBytes = word_of_int (4 * Dx (Bounds m) * Dy (Bounds m)), retErr = None,
              pix_after = Some pix'\<rparr>" by blast
    then show ?thesis using Inr RGBA e4 by simp
  next
    case YCbCr
    from decode_YCbCr [where jpeg_Decode = jpeg_Decode and src = src and drawn = drawn, OF Inr YCbCr jb] obtain pix' where
      "decode jpeg_Decode drawn src =
         Inr \<lparr>numBytes = word_of_int (4 * Dx (Bounds m) * Dy (Bounds m)), retErr = None,
              pix_after = Some pix'\<rparr>" by blast
    then show ?thesis using Inr YCbCr e4 by simp
  next
    case (OtherType t)
    show ?thesis using decode_Other [where jpeg_Decode = jpeg_Decode and src = src and drawn = drawn, OF Inr OtherType] Inr OtherType by simp
  qed
qed

text \<open>A 3 by 2 \<open>*image.YCbCr\<close> gives 24 bytes.\<close>

theorem decode_numBytes_witness:
  "(\<exists>r. decode (\<lambda>s. if s = [] then Inl ''EOF''
                     else Inr \<lparr>dyn_type = YCbCr,
                               Bounds = \<lparr>Min_X = 0, Min_Y = 0, Max_X = 3, Max_Y = 2\<rparr>,
                               Pix = []\<rparr>)
             (\<lambda>m i. 7) [255, 216] = Inr r \<and>
        uint (numBytes r) = 24 \<and> retErr r = None) \<and>
   jpeg_bounds \<lparr>Min_X = 0, Min_Y = 0, Max_X = 3, Max_Y = 2\<rparr>"
proof -
  let ?img = "\<lparr>dyn_type = YCbCr,
      Bounds = \<lparr>Min_X = 0, Min_Y = 0, Max_X = 3, Max_Y = 2\<rparr>, Pix = []\<rparr>"
  let ?jd = "\<lambda>s :: byte list. if s = [] then (Inl ''EOF'' :: string + Image) else Inr ?img"
  have jb: "jpeg_bounds \<lparr>Min_X = 0, Min_Y = 0, Max_X = 3, Max_Y = 2\<rparr>"
    by (simp add: jpeg_bounds_def Dx_def Dy_def)
  have h: "\<And>m. ?jd [255, 216] = Inr m \<Longrightarrow> jpeg_bounds (Bounds m)"
    using jb by auto
  from decode_numBytes [of ?jd "[255, 216]" "\<lambda>m i. 7", OF h]
  show ?thesis using jb by (simp add: Dx_def Dy_def)
qed

section \<open>The partition of the input\<close>

lemma partition_by_concat: "concat (partition_by next_size data) = data"
proof (induction next_size data rule: partition_by.induct)
  case (1 next_size data)
  show ?case
  proof (cases "data = []")
    case True
    then show ?thesis by (simp add: partition_by.simps [of next_size "[]"])
  next
    case False
    let ?n = "max 1 (min (length data) (next_size data))"
    have "partition_by next_size data = take ?n data # partition_by next_size (drop ?n data)"
      using False by (simp add: partition_by.simps [of next_size data] Let_def)
    moreover have "concat (partition_by next_size (drop ?n data)) = drop ?n data"
      using "1.IH" [OF False refl] .
    ultimately show ?thesis by simp
  qed
qed

lemma partition_by_nonempty: "p \<in> set (partition_by next_size data) \<Longrightarrow> p \<noteq> []"
proof (induction next_size data rule: partition_by.induct)
  case (1 next_size data)
  show ?case
  proof (cases "data = []")
    case True
    with "1.prems" show ?thesis by (simp add: partition_by.simps [of next_size "[]"])
  next
    case False
    let ?n = "max 1 (min (length data) (next_size data))"
    have eq: "partition_by next_size data = take ?n data # partition_by next_size (drop ?n data)"
      using False by (simp add: partition_by.simps [of next_size data] Let_def)
    from "1.prems" eq have "p = take ?n data \<or> p \<in> set (partition_by next_size (drop ?n data))"
      by simp
    then show ?thesis
    proof
      assume "p = take ?n data"
      then show ?thesis using False by simp
    next
      assume "p \<in> set (partition_by next_size (drop ?n data))"
      then show ?thesis using "1.IH" [OF False refl] by simp
    qed
  qed
qed

lemma ChunkPlanner_concat: "concat (ChunkPlanner plugins c target data) = data"
  by (cases target) (simp_all add: partition_by_concat)

lemma ChunkPlanner_nonempty: "p \<in> set (ChunkPlanner plugins c target data) \<Longrightarrow> p \<noteq> []"
  by (cases target) (auto dest: partition_by_nonempty split: if_splits)

section \<open>The layout of the chunks\<close>

lemma layout_length: "layout p c coff doff packed = (es, bytes) \<Longrightarrow> length es = length packed"
proof (induction packed arbitrary: coff doff es bytes)
  case Nil
  then show ?case by simp
next
  case (Cons pc packed)
  obtain plain compressed did where pc: "pc = (plain, compressed, did)" by (cases pc) auto
  let ?pad = "PagePadder p coff (length compressed)"
  obtain es' bytes' where
    r: "layout p c (coff + ?pad + length compressed) (doff + length plain) packed = (es', bytes')"
    by (cases "layout p c (coff + ?pad + length compressed) (doff + length plain) packed") auto
  from Cons.prems pc r have "length es = Suc (length es')" by (auto simp: Let_def)
  with Cons.IH [OF r] show ?case by simp
qed

lemma layout_contiguous:
  "layout p c coff doff packed = (es, bytes) \<Longrightarrow> contiguous_from doff es"
proof (induction packed arbitrary: coff doff es bytes)
  case Nil
  then show ?case by simp
next
  case (Cons pc packed)
  obtain plain compressed did where pc: "pc = (plain, compressed, did)" by (cases pc) auto
  let ?pad = "PagePadder p coff (length compressed)"
  obtain es' bytes' where
    r: "layout p c (coff + ?pad + length compressed) (doff + length plain) packed = (es', bytes')"
    by (cases "layout p c (coff + ?pad + length compressed) (doff + length plain) packed") auto
  from Cons.prems pc r have
    "es = \<lparr>DOffset = doff, DLength = length plain, COffset = coff + ?pad,
           CLength = length compressed, entry_codec = c, dict_id = did\<rparr> # es'"
    by (auto simp: Let_def)
  with Cons.IH [OF r] show ?case by simp
qed

text \<open>
  Every entry records its chunk: the lengths, the codec, the dictionary, and a place in
  the payload where exactly the compressed bytes lie.
\<close>

lemma layout_entries:
  "layout p c coff doff packed = (es, bytes) \<Longrightarrow>
   list_all2 (\<lambda>e pc. DLength e = length (fst pc) \<and> CLength e = length (fst (snd pc)) \<and>
                dict_id e = snd (snd pc) \<and> entry_codec e = c \<and> coff \<le> COffset e \<and>
                COffset e + CLength e \<le> coff + length bytes \<and>
                take (CLength e) (drop (COffset e - coff) bytes) = fst (snd pc)) es packed"
proof (induction packed arbitrary: coff doff es bytes)
  case Nil
  then show ?case by simp
next
  case (Cons pc packed)
  obtain plain compressed did where pc: "pc = (plain, compressed, did)" by (cases pc) auto
  let ?pad = "PagePadder p coff (length compressed)"
  let ?coff' = "coff + ?pad + length compressed"
  obtain es' bytes' where
    r: "layout p c ?coff' (doff + length plain) packed = (es', bytes')"
    by (cases "layout p c ?coff' (doff + length plain) packed") auto
  let ?e = "\<lparr>DOffset = doff, DLength = length plain, COffset = coff + ?pad,
           CLength = length compressed, entry_codec = c, dict_id = did\<rparr>"
  from Cons.prems pc r have es: "es = ?e # es'" and
    bytes: "bytes = replicate ?pad 0 @ compressed @ bytes'"
    by (auto simp: Let_def)
  have hd: "DLength ?e = length (fst pc) \<and> CLength ?e = length (fst (snd pc)) \<and>
      dict_id ?e = snd (snd pc) \<and> entry_codec ?e = c \<and> coff \<le> COffset ?e \<and>
      COffset ?e + CLength ?e \<le> coff + length bytes \<and>
      take (CLength ?e) (drop (COffset ?e - coff) bytes) = fst (snd pc)"
    using pc bytes by simp
  have tl: "list_all2 (\<lambda>e pc. DLength e = length (fst pc) \<and> CLength e = length (fst (snd pc)) \<and>
                dict_id e = snd (snd pc) \<and> entry_codec e = c \<and> coff \<le> COffset e \<and>
                COffset e + CLength e \<le> coff + length bytes \<and>
                take (CLength e) (drop (COffset e - coff) bytes) = fst (snd pc)) es' packed"
  proof (rule list_all2_mono [OF Cons.IH [OF r]])
    fix e pc'
    assume a: "DLength e = length (fst pc') \<and> CLength e = length (fst (snd pc')) \<and>
        dict_id e = snd (snd pc') \<and> entry_codec e = c \<and> ?coff' \<le> COffset e \<and>
        COffset e + CLength e \<le> ?coff' + length bytes' \<and>
        take (CLength e) (drop (COffset e - ?coff') bytes') = fst (snd pc')"
    then have a1: "DLength e = length (fst pc')" and a2: "CLength e = length (fst (snd pc'))"
      and a3: "dict_id e = snd (snd pc')" and a4: "entry_codec e = c"
      and ge: "?coff' \<le> COffset e" and a6: "COffset e + CLength e \<le> ?coff' + length bytes'"
      and a7: "take (CLength e) (drop (COffset e - ?coff') bytes') = fst (snd pc')"
      by blast+
    have split: "COffset e - coff = ?pad + (length compressed + (COffset e - ?coff'))"
      using ge by simp
    have d: "drop (COffset e - coff) bytes = drop (COffset e - ?coff') bytes'"
      unfolding split bytes by (simp add: drop_append)
    have b5: "coff \<le> COffset e" using ge by simp
    have b6: "COffset e + CLength e \<le> coff + length bytes" using a6 bytes by simp
    have b7: "take (CLength e) (drop (COffset e - coff) bytes) = fst (snd pc')"
      using a7 d by simp
    show "DLength e = length (fst pc') \<and> CLength e = length (fst (snd pc')) \<and>
        dict_id e = snd (snd pc') \<and> entry_codec e = c \<and> coff \<le> COffset e \<and>
        COffset e + CLength e \<le> coff + length bytes \<and>
        take (CLength e) (drop (COffset e - coff) bytes) = fst (snd pc')"
      using a1 a2 a3 a4 b5 b6 b7 by blast
  qed
  show ?case unfolding es by (rule list_all2_Cons [THEN iffD2, OF conjI [OF hd tl]])
qed

section \<open>The index tree\<close>

lemma groups_concat: "0 < m \<Longrightarrow> concat (groups m xs) = xs"
proof (induction m xs rule: groups.induct)
  case (1 m xs)
  show ?case
  proof (cases "xs = []")
    case True
    then show ?thesis by (simp add: groups.simps [of m "[]"])
  next
    case False
    with "1.prems" have "groups m xs = take m xs # groups m (drop m xs)"
      by (simp add: groups.simps [of m xs])
    moreover have "concat (groups m (drop m xs)) = drop m xs"
      using "1.IH" False "1.prems" by simp
    ultimately show ?thesis by simp
  qed
qed

lemma groups_member: "g \<in> set (groups m xs) \<Longrightarrow> g \<noteq> [] \<and> set g \<subseteq> set xs"
proof (induction m xs rule: groups.induct)
  case (1 m xs)
  show ?case
  proof (cases "m = 0 \<or> xs = []")
    case True
    with "1.prems" show ?thesis by (simp add: groups.simps [of m xs])
  next
    case False
    then have eq: "groups m xs = take m xs # groups m (drop m xs)"
      by (simp add: groups.simps [of m xs])
    from "1.prems" eq have "g = take m xs \<or> g \<in> set (groups m (drop m xs))" by simp
    then show ?thesis
    proof
      assume "g = take m xs"
      then show ?thesis using False by (auto dest: in_set_takeD)
    next
      assume "g \<in> set (groups m (drop m xs))"
      with "1.IH" [OF False] have "g \<noteq> [] \<and> set g \<subseteq> set (drop m xs)" by simp
      then show ?thesis by (auto dest: in_set_dropD)
    qed
  qed
qed

lemma concat_grouped: "concat (map (\<lambda>g. concat (map f g)) gs) = concat (map f (concat gs))"
  by (induction gs) simp_all

lemma build_level_entries:
  "entries_of (build_level m children) = concat (map (\<lambda>child. entries_of (snd child)) children)"
proof (induction m children rule: build_level.induct)
  case (1 m children)
  show ?case
  proof (cases "m < 2 \<or> length children \<le> m")
    case True
    then show ?thesis by (simp add: build_level.simps [of m children])
  next
    case False
    let ?up = "map (\<lambda>g. (fst (hd g), Branch g)) (groups m children)"
    have "build_level m children = build_level m ?up"
      using False by (simp add: build_level.simps [of m children])
    also have "entries_of \<dots> = concat (map (\<lambda>child. entries_of (snd child)) ?up)"
      using "1.IH" [OF False] .
    also have "\<dots> = concat (map (\<lambda>g. concat (map (\<lambda>child. entries_of (snd child)) g))
        (groups m children))"
      by (simp add: comp_def)
    also have "\<dots> = concat (map (\<lambda>child. entries_of (snd child)) (concat (groups m children)))"
      by (rule concat_grouped)
    also have "concat (groups m children) = children"
      using False by (intro groups_concat) simp
    finally show ?thesis .
  qed
qed

lemma lower_bound_Branch:
  assumes "g \<noteq> []" "entries_of (snd (hd g)) \<noteq> []"
  shows "lower_bound (Branch g) = lower_bound (snd (hd g))" and "entries_of (Branch g) \<noteq> []"
proof -
  from assms(1) obtain ch rest where g: "g = ch # rest" by (cases g) auto
  from assms(2) g obtain e es where e: "entries_of (snd ch) = e # es"
    by (cases "entries_of (snd ch)") auto
  show "lower_bound (Branch g) = lower_bound (snd (hd g))"
    using g e by (simp add: lower_bound_def)
  show "entries_of (Branch g) \<noteq> []" using g e by simp
qed

lemma build_level_bounds:
  assumes "\<forall>child \<in> set children. entries_of (snd child) \<noteq> [] \<and>
             fst child = lower_bound (snd child) \<and> bounds_recorded (snd child)"
  shows "bounds_recorded (build_level m children)"
  using assms
proof (induction m children rule: build_level.induct)
  case (1 m children)
  show ?case
  proof (cases "m < 2 \<or> length children \<le> m")
    case True
    then show ?thesis
      using "1.prems" by (simp add: build_level.simps [of m children] list_all_iff)
  next
    case False
    let ?up = "map (\<lambda>g. (fst (hd g), Branch g)) (groups m children)"
    have eq: "build_level m children = build_level m ?up"
      using False by (simp add: build_level.simps [of m children])
    have good: "\<forall>child \<in> set ?up. entries_of (snd child) \<noteq> [] \<and>
             fst child = lower_bound (snd child) \<and> bounds_recorded (snd child)"
    proof
      fix child assume "child \<in> set ?up"
      then obtain g where g: "g \<in> set (groups m children)" and
        child: "child = (fst (hd g), Branch g)" by auto
      from groups_member [OF g] have ne: "g \<noteq> []" and sub: "set g \<subseteq> set children" by simp_all
      from ne have "hd g \<in> set g" by simp
      with sub "1.prems" have h: "entries_of (snd (hd g)) \<noteq> []"
        "fst (hd g) = lower_bound (snd (hd g))" by auto
      have b: "bounds_recorded (Branch g)"
        using sub "1.prems" by (auto simp: list_all_iff)
      show "entries_of (snd child) \<noteq> [] \<and> fst child = lower_bound (snd child) \<and>
          bounds_recorded (snd child)"
        using lower_bound_Branch [OF ne h(1)] h(2) b child by simp
    qed
    show ?thesis unfolding eq using "1.IH" [OF False good] .
  qed
qed

lemma IndexBuilder_entries: "entries_of (IndexBuilder m es) = es"
proof (cases "m < 2 \<or> length es \<le> m")
  case True
  then show ?thesis by (simp add: IndexBuilder_def)
next
  case False
  then have "entries_of (IndexBuilder m es) =
      concat (map (\<lambda>child. entries_of (snd child))
        (map (\<lambda>g. (DOffset (hd g), Leaf g)) (groups m es)))"
    by (simp add: IndexBuilder_def build_level_entries)
  also have "\<dots> = concat (groups m es)" by (simp add: comp_def)
  also have "\<dots> = es" using False by (intro groups_concat) simp
  finally show ?thesis .
qed

lemma IndexBuilder_bounds: "bounds_recorded (IndexBuilder m es)"
proof (cases "m < 2 \<or> length es \<le> m")
  case True
  then show ?thesis by (simp add: IndexBuilder_def)
next
  case False
  let ?leaves = "map (\<lambda>g. (DOffset (hd g), Leaf g)) (groups m es)"
  have "\<forall>child \<in> set ?leaves. entries_of (snd child) \<noteq> [] \<and>
             fst child = lower_bound (snd child) \<and> bounds_recorded (snd child)"
  proof
    fix child assume "child \<in> set ?leaves"
    then obtain g where g: "g \<in> set (groups m es)" and
      child: "child = (DOffset (hd g), Leaf g)" by auto
    from groups_member [OF g] obtain e rest where "g = e # rest" by (cases g) auto
    then show "entries_of (snd child) \<noteq> [] \<and> fst child = lower_bound (snd child) \<and>
          bounds_recorded (snd child)"
      using child by (simp add: lower_bound_def)
  qed
  from build_level_bounds [OF this] show ?thesis using False by (simp add: IndexBuilder_def)
qed

section \<open>Contiguous entries\<close>

lemma contiguous_lower: "contiguous_from d es \<Longrightarrow> e \<in> set es \<Longrightarrow> d \<le> DOffset e"
  by (induction es arbitrary: d) fastforce+

lemma contiguous_strict:
  "contiguous_from d es \<Longrightarrow> \<forall>e \<in> set es. 0 < DLength e \<Longrightarrow> strictly_increasing es"
proof (induction es arbitrary: d rule: strictly_increasing.induct)
  case 1
  then show ?case by simp
next
  case (2 e)
  then show ?case by simp
next
  case (3 e e' es)
  from "3.prems" have "DOffset e = d" "DOffset e' = d + DLength e" "0 < DLength e"
    "contiguous_from (d + DLength e) (e' # es)" by simp_all
  with "3.IH" [of "d + DLength e"] "3.prems"(2) show ?case by simp
qed

lemma contiguous_total:
  "contiguous_from d es \<Longrightarrow> list_all2 (\<lambda>e p. DLength e = length p) es pieces \<Longrightarrow>
   TotalDSize es = length (concat pieces)"
  unfolding TotalDSize_def
  by (induction es arbitrary: d pieces) (auto simp: list_all2_Cons1)

lemma contiguous_disjoint:
  "contiguous_from d es \<Longrightarrow> i < j \<Longrightarrow> j < length es \<Longrightarrow>
   DOffset (es ! i) + DLength (es ! i) \<le> DOffset (es ! j)"
proof (induction es arbitrary: d i j)
  case Nil
  then show ?case by simp
next
  case (Cons e es)
  from Cons.prems(2) obtain j' where j: "j = Suc j'" by (cases j) auto
  from Cons.prems(1) have c: "DOffset e = d" "contiguous_from (d + DLength e) es" by simp_all
  show ?case
  proof (cases i)
    case 0
    from Cons.prems(3) j have "es ! j' \<in> set es" by simp
    from contiguous_lower [OF c(2) this] show ?thesis using 0 j c(1) by simp
  next
    case (Suc i')
    with Cons.IH [OF c(2), of i' j'] Cons.prems j show ?thesis by simp
  qed
qed

lemma contiguous_cover:
  "contiguous_from d es \<Longrightarrow> list_all2 (\<lambda>e p. DLength e = length p) es pieces \<Longrightarrow>
   map (\<lambda>e. take (DLength e) (drop (DOffset e - d) (concat pieces))) es = pieces"
proof (induction es arbitrary: d pieces)
  case Nil
  then show ?case by simp
next
  case (Cons e es)
  from Cons.prems(2) obtain p ps where ps: "pieces = p # ps" "DLength e = length p"
    "list_all2 (\<lambda>e p. DLength e = length p) es ps" by (auto simp: list_all2_Cons1)
  from Cons.prems(1) have c: "DOffset e = d" "contiguous_from (d + length p) es"
    using ps(2) by simp_all
  have "map (\<lambda>x. take (DLength x) (drop (DOffset x - d) (concat pieces))) es =
        map (\<lambda>x. take (DLength x) (drop (DOffset x - (d + length p)) (concat ps))) es"
  proof (rule map_cong [OF refl])
    fix x assume "x \<in> set es"
    from contiguous_lower [OF c(2) this] have "DOffset x - d = length p + (DOffset x - (d + length p))"
      by simp
    then show "take (DLength x) (drop (DOffset x - d) (concat pieces)) =
        take (DLength x) (drop (DOffset x - (d + length p)) (concat ps))"
      using ps(1) by (simp add: drop_append)
  qed
  also have "\<dots> = ps" using Cons.IH [OF c(2) ps(3)] .
  finally show ?case using ps c by simp
qed

section \<open>Clipping to the requested range\<close>

lemma clip_append: "clip s e d (xs @ ys) = clip s e d xs @ clip s e (d + length xs) ys"
proof (cases "d + length xs \<le> s")
  case True
  then have m: "max s d = s" "max s (d + length xs) = s" by simp_all
  have k: "s - d - length xs = s - (d + length xs)" by simp
  have gone: "drop (s - d) xs = []" using True by simp
  show ?thesis unfolding clip_def m by (simp add: gone k add.assoc)
next
  case before: False
  let ?k = "max s d - d"
  from before have m: "max s (d + length xs) = d + length xs" by simp
  from before have k: "?k - length xs = 0" "d + length xs - (d + length xs) = 0" by simp_all
  have len: "length (drop ?k xs) = d + length xs - max s d" using before by (simp add: max_def)
  show ?thesis
  proof (cases "e \<le> d + length xs")
    case True
    then have a: "min e (d + length xs + length ys) = e" "min e (d + length xs) = e" by simp_all
    have fits: "e - max s d - length (drop ?k xs) = 0" using True len by simp
    have "clip s e d (xs @ ys) = take (e - max s d) (drop ?k xs @ ys)"
      unfolding clip_def using a before by (simp add: add.assoc)
    also have "\<dots> = take (e - max s d) (drop ?k xs)"
      using fits by (simp del: length_drop)
    also have "\<dots> = clip s e d xs" unfolding clip_def using a by simp
    finally have l: "clip s e d (xs @ ys) = clip s e d xs" .
    have "clip s e (d + length xs) ys = []" unfolding clip_def m using True by simp
    with l show ?thesis by simp
  next
    case False
    then have a: "min e (d + length xs) = d + length xs" by simp
    let ?c = "min e (d + length xs + length ys)"
    have c: "d + length xs \<le> ?c" using False by simp
    have rest: "?c - max s d - length (drop ?k xs) = ?c - (d + length xs)"
      using len c before by (simp add: max_def)
    have "clip s e d (xs @ ys) = take (?c - max s d) (drop ?k xs @ ys)"
      unfolding clip_def using before by (simp add: add.assoc)
    also have "\<dots> = take (?c - max s d) (drop ?k xs) @ take (?c - (d + length xs)) ys"
      using rest by (simp del: length_drop)
    also have "take (?c - max s d) (drop ?k xs) = drop ?k xs"
      using len c by (simp del: length_drop)
    finally have l: "clip s e d (xs @ ys) = drop ?k xs @ take (?c - (d + length xs)) ys" .
    have x: "clip s e d xs = drop ?k xs"
      unfolding clip_def a using len by (simp del: length_drop)
    have y: "clip s e (d + length xs) ys = take (?c - (d + length xs)) ys"
      unfolding clip_def m by (simp add: add.assoc)
    show ?thesis using l x y by simp
  qed
qed

lemma clip_outside:
  assumes "\<not> max s d < min e (d + length xs)"
  shows "clip s e d xs = []"
proof -
  from assms have "min e (d + length xs) - max s d = 0" by linarith
  then show ?thesis unfolding clip_def by (simp only: take_0)
qed

lemma clip_whole: "s \<le> e \<Longrightarrow> e \<le> length xs \<Longrightarrow> clip s e 0 xs = take (e - s) (drop s xs)"
  unfolding clip_def by (simp add: min_def)

lemma trim_clip: "DLength c = length plain \<Longrightarrow> trim s e c plain = clip s e (DOffset c) plain"
  unfolding trim_def clip_def by simp

section \<open>What the encoder writes\<close>

lemma encode_shape:
  assumes "encode plugins m cfg data = Inr f"
  obtains target es where
    "chunk_target_of cfg = Inr target"
    "layout (cpagesize cfg) (cfg_codec cfg) 0 0
       (map (compress_chunk plugins (cfg_codec cfg) (dictionaries f))
          (ChunkPlanner plugins (cfg_codec cfg) target data)) = (es, payload f)"
    "root f = IndexBuilder m es"
    "magic_ok f"
    "location f = indexlocation cfg"
proof -
  from assms obtain target where t: "chunk_target_of cfg = Inr target"
    unfolding encode_def by (cases "chunk_target_of cfg") auto
  let ?c = "cfg_codec cfg"
  let ?dicts = "if supports_resources ?c then resources cfg else []"
  let ?packed = "map (compress_chunk plugins ?c ?dicts) (ChunkPlanner plugins ?c target data)"
  obtain es bytes where l: "layout (cpagesize cfg) ?c 0 0 ?packed = (es, bytes)"
    by (cases "layout (cpagesize cfg) ?c 0 0 ?packed") auto
  from assms t l have f: "f = \<lparr>magic_ok = True, location = indexlocation cfg,
      root = IndexBuilder m es, payload = bytes, dictionaries = ?dicts\<rparr>"
    unfolding encode_def by (simp add: Let_def)
  show thesis
  proof (rule that [OF t])
    show "layout (cpagesize cfg) ?c 0 0
       (map (compress_chunk plugins ?c (dictionaries f))
          (ChunkPlanner plugins ?c target data)) = (es, payload f)"
      using l f by simp
    show "root f = IndexBuilder m es" using f by simp
    show "magic_ok f" using f by simp
    show "location f = indexlocation cfg" using f by simp
  qed
qed

lemma decode_compressed_chunk:
  assumes "lossless plugins"
    and "compress_chunk plugins c (dictionaries f) piece = pc"
    and "dict_id e = snd (snd pc)" "entry_codec e = c" "DLength e = length (fst pc)"
    and "fetch f e = fst (snd pc)"
  shows "decode_chunk plugins f e = Inr piece"
proof -
  let ?dicts = "dictionaries f"
  let ?did = "case pick_dictionary (plugins c) ?dicts piece of
                None \<Rightarrow> None | Some i \<Rightarrow> if i < length ?dicts then Some i else None"
  from assms(2) have pc: "pc = (piece, compress (plugins c) (dictionary_of ?dicts ?did) piece, ?did)"
    unfolding compress_chunk_def CodecAdapter_compress_def by (simp add: Let_def)
  from assms(1) have undo: "decompress (plugins c) (dictionary_of ?dicts ?did)
      (compress (plugins c) (dictionary_of ?dicts ?did) piece) = Some piece"
    unfolding lossless_def by blast
  have did: "dict_id e = ?did" and len: "DLength e = length piece"
    and got: "fetch f e = compress (plugins c) (dictionary_of ?dicts ?did) piece"
    using assms(3,5,6) pc by simp_all
  show ?thesis
  proof (cases ?did)
    case None
    then show ?thesis
      using did len got undo assms(4)
      unfolding decode_chunk_def CodecAdapter_decompress_def dictionary_of_def by simp
  next
    case (Some i)
    then have "i < length ?dicts" by (auto split: option.splits if_splits)
    with Some show ?thesis
      using did len got undo assms(4)
      unfolding decode_chunk_def CodecAdapter_decompress_def dictionary_of_def by simp
  qed
qed

lemma compress_chunk_dict:
  "compress_chunk plugins c dicts piece = pc \<Longrightarrow>
   fst pc = piece \<and> (case snd (snd pc) of None \<Rightarrow> True | Some i \<Rightarrow> i < length dicts)"
  unfolding compress_chunk_def by (auto simp: Let_def split: option.splits if_splits)

text \<open>
  The entries of an encoded file, one per planned piece of the input: each has the piece's
  length, lies within the file, and decodes to the piece.
\<close>

lemma encode_entries:
  assumes "encode plugins m cfg data = Inr f"
  shows "\<exists>pieces. concat pieces = data \<and> (\<forall>p \<in> set pieces. p \<noteq> []) \<and>
           contiguous_from 0 (entries_of (root f)) \<and> bounds_recorded (root f) \<and> magic_ok f \<and>
           list_all2 (\<lambda>e p. DLength e = length p \<and> within_extent f e \<and>
                        (lossless plugins \<longrightarrow> decode_chunk plugins f e = Inr p))
             (entries_of (root f)) pieces"
proof -
  from encode_shape [OF assms] obtain target es where
    l: "layout (cpagesize cfg) (cfg_codec cfg) 0 0
       (map (compress_chunk plugins (cfg_codec cfg) (dictionaries f))
          (ChunkPlanner plugins (cfg_codec cfg) target data)) = (es, payload f)" and
    r: "root f = IndexBuilder m es" and mg: "magic_ok f" by blast
  let ?c = "cfg_codec cfg"
  let ?pieces = "ChunkPlanner plugins ?c target data"
  let ?pack = "compress_chunk plugins ?c (dictionaries f)"
  have es: "entries_of (root f) = es" using r by (simp add: IndexBuilder_entries)
  have b: "bounds_recorded (root f)" using r by (simp add: IndexBuilder_bounds)
  have c0: "contiguous_from 0 es" using layout_contiguous [OF l] .
  from layout_entries [OF l] have
    rel: "list_all2 (\<lambda>e p. DLength e = length (fst (?pack p)) \<and>
                CLength e = length (fst (snd (?pack p))) \<and>
                dict_id e = snd (snd (?pack p)) \<and> entry_codec e = ?c \<and> 0 \<le> COffset e \<and>
                COffset e + CLength e \<le> 0 + length (payload f) \<and>
                take (CLength e) (drop (COffset e - 0) (payload f)) = fst (snd (?pack p)))
            es ?pieces"
    by (simp only: list_all2_map2)
  have "list_all2 (\<lambda>e p. DLength e = length p \<and> within_extent f e \<and>
                        (lossless plugins \<longrightarrow> decode_chunk plugins f e = Inr p)) es ?pieces"
  proof (rule list_all2_mono [OF rel])
    fix e :: index_entry and p
    assume a: "DLength e = length (fst (?pack p)) \<and>
                CLength e = length (fst (snd (?pack p))) \<and>
                dict_id e = snd (snd (?pack p)) \<and> entry_codec e = ?c \<and> 0 \<le> COffset e \<and>
                COffset e + CLength e \<le> 0 + length (payload f) \<and>
                take (CLength e) (drop (COffset e - 0) (payload f)) = fst (snd (?pack p))"
    then have a1: "DLength e = length (fst (?pack p))" and a3: "dict_id e = snd (snd (?pack p))"
      and a4: "entry_codec e = ?c" and a6': "COffset e + CLength e \<le> 0 + length (payload f)"
      and a7': "take (CLength e) (drop (COffset e - 0) (payload f)) = fst (snd (?pack p))"
      by blast+
    from a6' have a6: "COffset e + CLength e \<le> length (payload f)" by simp
    from a7' have a7: "fetch f e = fst (snd (?pack p))" unfolding fetch_def by simp
    from compress_chunk_dict [OF refl, of plugins ?c "dictionaries f" p] have
      fp: "fst (?pack p) = p" and
      dv: "case snd (snd (?pack p)) of None \<Rightarrow> True | Some i \<Rightarrow> i < length (dictionaries f)"
      by simp_all
    have w: "within_extent f e" unfolding within_extent_def using a6 a3 dv by simp
    have d: "lossless plugins \<longrightarrow> decode_chunk plugins f e = Inr p"
      using decode_compressed_chunk [OF _ refl a3 a4 a1 a7] by blast
    show "DLength e = length p \<and> within_extent f e \<and>
          (lossless plugins \<longrightarrow> decode_chunk plugins f e = Inr p)"
      using a1 fp w d by simp
  qed
  moreover have "concat ?pieces = data" by (rule ChunkPlanner_concat)
  moreover have "\<forall>p \<in> set ?pieces. p \<noteq> []" using ChunkPlanner_nonempty by blast
  ultimately show ?thesis using es b c0 mg by auto
qed

lemma chunk_target_accepts:
  assumes "cchunksize cfg \<noteq> 0 \<longrightarrow> supports_cchunksize (cfg_codec cfg)"
  shows "\<exists>target. chunk_target_of cfg = Inr target"
proof (cases "cchunksize cfg = 0")
  case True
  then show ?thesis unfolding chunk_target_of_def by simp
next
  case False
  with assms show ?thesis unfolding chunk_target_of_def by simp
qed

lemma encode_accepts:
  assumes "cchunksize cfg \<noteq> 0 \<longrightarrow> supports_cchunksize (cfg_codec cfg)"
  shows "\<exists>f. encode plugins m cfg data = Inr f"
proof -
  from chunk_target_accepts [OF assms] obtain target where
    t: "chunk_target_of cfg = Inr target" by blast
  then show ?thesis unfolding encode_def by (auto simp: Let_def split: prod.splits)
qed

section \<open>Reading and decoding an encoded file\<close>

lemma list_all2_left:
  "list_all2 (\<lambda>x y. P x \<and> Q x y) xs ys \<Longrightarrow> list_all P xs"
  by (induction xs arbitrary: ys) (auto simp: list_all2_Cons1)

lemma pieces_positive:
  "list_all2 (\<lambda>e p. DLength e = length p) es pieces \<Longrightarrow> \<forall>p \<in> set pieces. p \<noteq> [] \<Longrightarrow>
   \<forall>e \<in> set es. 0 < DLength e"
  by (induction es arbitrary: pieces) (auto simp: list_all2_Cons1)

lemma IndexReader_encoded:
  assumes "encode plugins m cfg data = Inr f"
  shows "IndexReader f = Inr (entries_of (root f))"
proof -
  let ?es = "entries_of (root f)"
  from encode_entries [OF assms] obtain pieces where
    ne: "\<forall>p \<in> set pieces. p \<noteq> []" and c0: "contiguous_from 0 ?es" and
    b: "bounds_recorded (root f)" and mg: "magic_ok f" and
    rel: "list_all2 (\<lambda>e p. DLength e = length p \<and> within_extent f e \<and>
                        (lossless plugins \<longrightarrow> decode_chunk plugins f e = Inr p)) ?es pieces"
    by blast
  have lens: "list_all2 (\<lambda>e p. DLength e = length p) ?es pieces"
    by (rule list_all2_mono [OF rel]) blast
  have inc: "strictly_increasing ?es"
    by (rule contiguous_strict [OF c0 pieces_positive [OF lens ne]])
  have "list_all2 (\<lambda>e p. within_extent f e \<and>
      (DLength e = length p \<and> (lossless plugins \<longrightarrow> decode_chunk plugins f e = Inr p)))
      ?es pieces"
    by (rule list_all2_mono [OF rel]) blast
  then have ext: "list_all (within_extent f) ?es" by (rule list_all2_left)
  show ?thesis unfolding IndexReader_def using mg b c0 inc ext by (simp add: Let_def)
qed

lemma scheduler_run:
  "list_all2 (\<lambda>c p. DLength c = length p \<and> decode_chunk plugins f c = Inr p) es pieces \<Longrightarrow>
   contiguous_from d es \<Longrightarrow>
   DecodeScheduler plugins f s e (filter (intersects s e) es) sink =
     (sink @ clip s e d (concat pieces), None)"
proof (induction es arbitrary: d pieces sink)
  case Nil
  then show ?case by (simp add: clip_def)
next
  case (Cons c es)
  from Cons.prems(1) obtain p ps where ps: "pieces = p # ps" and len: "DLength c = length p"
    and dec: "decode_chunk plugins f c = Inr p"
    and rest: "list_all2 (\<lambda>c p. DLength c = length p \<and> decode_chunk plugins f c = Inr p) es ps"
    by (auto simp: list_all2_Cons1)
  from Cons.prems(2) len have off: "DOffset c = d" and
    cont: "contiguous_from (d + length p) es" by simp_all
  have app: "clip s e d (concat pieces) = clip s e d p @ clip s e (d + length p) (concat ps)"
    unfolding ps by (simp add: clip_append)
  show ?case
  proof (cases "intersects s e c")
    case True
    have "DecodeScheduler plugins f s e (filter (intersects s e) (c # es)) sink =
        DecodeScheduler plugins f s e (filter (intersects s e) es) (sink @ trim s e c p)"
      using True dec by simp
    also have "\<dots> = ((sink @ trim s e c p) @ clip s e (d + length p) (concat ps), None)"
      by (rule Cons.IH [OF rest cont])
    also have "trim s e c p = clip s e d p" using trim_clip [OF len] off by simp
    finally show ?thesis using app by simp
  next
    case False
    then have "\<not> max s d < min e (d + length p)"
      unfolding intersects_def using off len by simp
    then have none: "clip s e d p = []" by (rule clip_outside)
    have "DecodeScheduler plugins f s e (filter (intersects s e) (c # es)) sink =
        DecodeScheduler plugins f s e (filter (intersects s e) es) sink"
      using False by simp
    also have "\<dots> = (sink @ clip s e (d + length p) (concat ps), None)"
      by (rule Cons.IH [OF rest cont])
    finally show ?thesis using app none by simp
  qed
qed

lemma decode_encoded:
  assumes "lossless plugins" "encode plugins m cfg data = Inr f"
    and "RangeResolver (entries_of (root f)) req = Inr (s, e, chunks)"
  shows "rac_decode plugins f req = (clip s e 0 data, None)"
proof -
  let ?es = "entries_of (root f)"
  from encode_entries [OF assms(2)] obtain pieces where
    cat: "concat pieces = data" and c0: "contiguous_from 0 ?es" and
    rel: "list_all2 (\<lambda>e p. DLength e = length p \<and> within_extent f e \<and>
                        (lossless plugins \<longrightarrow> decode_chunk plugins f e = Inr p)) ?es pieces"
    by blast
  have dec: "list_all2 (\<lambda>c p. DLength c = length p \<and> decode_chunk plugins f c = Inr p) ?es pieces"
    by (rule list_all2_mono [OF rel]) (use assms(1) in blast)
  from assms(3) have chunks: "chunks = filter (intersects s e) ?es"
    unfolding RangeResolver_def by (auto simp: Let_def split: if_splits)
  have "rac_decode plugins f req = DecodeScheduler plugins f s e chunks []"
    unfolding rac_decode_def using IndexReader_encoded [OF assms(2)] assms(3) by simp
  also have "\<dots> = ([] @ clip s e 0 (concat pieces), None)"
    unfolding chunks by (rule scheduler_run [OF dec c0])
  finally show ?thesis using cat by simp
qed

lemma TotalDSize_encoded:
  assumes "encode plugins m cfg data = Inr f"
  shows "TotalDSize (entries_of (root f)) = length data"
proof -
  from encode_entries [OF assms] obtain pieces where
    cat: "concat pieces = data" and c0: "contiguous_from 0 (entries_of (root f))" and
    rel: "list_all2 (\<lambda>e p. DLength e = length p \<and> within_extent f e \<and>
                        (lossless plugins \<longrightarrow> decode_chunk plugins f e = Inr p))
            (entries_of (root f)) pieces"
    by blast
  have "list_all2 (\<lambda>e p. DLength e = length p) (entries_of (root f)) pieces"
    by (rule list_all2_mono [OF rel]) blast
  from contiguous_total [OF c0 this] cat show ?thesis by simp
qed

lemma lossless_reversing: "lossless reversing"
  unfolding lossless_def reversing_def by simp

section \<open>The chunks of an encoded file\<close>

text \<open>
  Claim C5. In every file the encoder produces, the index entries are DOffset-contiguous
  from 0 and strictly increasing, their lengths add up to the length of the input
  (TotalDSize), the DSpace ranges of two different chunks do not overlap, and the ranges,
  taken in DOffset order, cover the input exactly: cutting the input at the entries'
  offsets and lengths and concatenating the pieces gives the input back.
\<close>

theorem encoded_chunks_cover:
  assumes "encode plugins m cfg data = Inr f"
  shows "contiguous_from 0 (entries_of (root f)) \<and>
         strictly_increasing (entries_of (root f)) \<and>
         TotalDSize (entries_of (root f)) = length data \<and>
         (\<forall>i j. i < j \<and> j < length (entries_of (root f)) \<longrightarrow>
            DOffset (entries_of (root f) ! i) + DLength (entries_of (root f) ! i)
              \<le> DOffset (entries_of (root f) ! j)) \<and>
         concat (map (\<lambda>e. take (DLength e) (drop (DOffset e) data)) (entries_of (root f))) = data"
proof -
  let ?es = "entries_of (root f)"
  from encode_entries [OF assms] obtain pieces where
    cat: "concat pieces = data" and ne: "\<forall>p \<in> set pieces. p \<noteq> []" and
    c0: "contiguous_from 0 ?es" and
    rel: "list_all2 (\<lambda>e p. DLength e = length p \<and> within_extent f e \<and>
                        (lossless plugins \<longrightarrow> decode_chunk plugins f e = Inr p)) ?es pieces"
    by blast
  have lens: "list_all2 (\<lambda>e p. DLength e = length p) ?es pieces"
    by (rule list_all2_mono [OF rel]) blast
  have inc: "strictly_increasing ?es"
    by (rule contiguous_strict [OF c0 pieces_positive [OF lens ne]])
  have total: "TotalDSize ?es = length data"
    using contiguous_total [OF c0 lens] cat by simp
  have apart: "\<forall>i j. i < j \<and> j < length ?es \<longrightarrow>
      DOffset (?es ! i) + DLength (?es ! i) \<le> DOffset (?es ! j)"
    using contiguous_disjoint [OF c0] by blast
  have "map (\<lambda>e. take (DLength e) (drop (DOffset e - 0) (concat pieces))) ?es = pieces"
    by (rule contiguous_cover [OF c0 lens])
  then have cover: "concat (map (\<lambda>e. take (DLength e) (drop (DOffset e) data)) ?es) = data"
    using cat by simp
  show ?thesis using c0 inc total apart cover by blast
qed

text \<open>Eleven bytes in chunks of three: four chunks, the last of two bytes.\<close>

theorem encoded_chunks_cover_witness:
  "\<exists>f. encode reversing 2 sample_config sample_data = Inr f \<and>
       map (\<lambda>e. (DOffset e, DLength e)) (entries_of (root f)) = [(0, 3), (3, 3), (6, 3), (9, 2)] \<and>
       contiguous_from 0 (entries_of (root f)) \<and> strictly_increasing (entries_of (root f)) \<and>
       TotalDSize (entries_of (root f)) = 11"
proof -
  from encode_accepts [of sample_config reversing 2 sample_data]
  obtain f where f: "encode reversing 2 sample_config sample_data = Inr f"
    unfolding sample_config_def by auto
  have shape: "map (\<lambda>e. (DOffset e, DLength e)) (entries_of (root f)) =
      [(0, 3), (3, 3), (6, 3), (9, 2)]"
  proof -
    have "map (\<lambda>e. (DOffset e, DLength e))
        (entries_of (root (projr (encode reversing 2 sample_config sample_data)))) =
      [(0, 3), (3, 3), (6, 3), (9, 2)]"
      by code_simp
    then show ?thesis using f by simp
  qed
  from encoded_chunks_cover [OF f] shape f show ?thesis
    by (auto simp: sample_data_def)
qed

section \<open>Round trip\<close>

text \<open>
  Claim C1. For every input, every chunk-size configuration the encoder accepts (a
  target in DSpace with any codec, a target in CSpace with a codec that supports it) and
  every range \<open>[s, e)\<close> with \<open>s \<le> e \<le> len(data)\<close>, encoding succeeds and decoding the file
  over \<open>[s, e)\<close> gives exactly \<open>data[s:e]\<close>, without an error; decoding with both bounds
  omitted gives \<open>data\<close>. The codec is any lossless one, the page size, the index placement,
  the dictionaries and the node capacity of the index are arbitrary.
\<close>

theorem decode_encode_range:
  assumes "lossless plugins"
    and "cchunksize cfg \<noteq> 0 \<longrightarrow> supports_cchunksize (cfg_codec cfg)"
    and "s \<le> e" and "e \<le> length data"
  shows "\<exists>f. encode plugins m cfg data = Inr f \<and>
           rac_decode plugins f \<lparr>range_start = Some s, range_end = Some e\<rparr> =
             (take (e - s) (drop s data), None) \<and>
           rac_decode plugins f \<lparr>range_start = Some 0, range_end = Some (length data)\<rparr> =
             (data, None) \<and>
           rac_decode plugins f \<lparr>range_start = None, range_end = None\<rparr> = (data, None)"
proof -
  from encode_accepts [OF assms(2)] obtain f where f: "encode plugins m cfg data = Inr f"
    by blast
  let ?es = "entries_of (root f)"
  have total: "TotalDSize ?es = length data" by (rule TotalDSize_encoded [OF f])
  have r1: "RangeResolver ?es \<lparr>range_start = Some s, range_end = Some e\<rparr> =
      Inr (s, e, filter (intersects s e) ?es)"
    unfolding RangeResolver_def using total assms(3,4) by (simp add: Let_def)
  have r2: "RangeResolver ?es \<lparr>range_start = Some 0, range_end = Some (length data)\<rparr> =
      Inr (0, length data, filter (intersects 0 (length data)) ?es)"
    unfolding RangeResolver_def using total by (simp add: Let_def)
  have r3: "RangeResolver ?es \<lparr>range_start = None, range_end = None\<rparr> =
      Inr (0, length data, filter (intersects 0 (length data)) ?es)"
    unfolding RangeResolver_def using total by (simp add: Let_def)
  have d1: "rac_decode plugins f \<lparr>range_start = Some s, range_end = Some e\<rparr> =
      (take (e - s) (drop s data), None)"
    using decode_encoded [OF assms(1) f r1] clip_whole [OF assms(3,4)] by simp
  have whole: "clip 0 (length data) 0 data = data" by (simp add: clip_def)
  have d2: "rac_decode plugins f \<lparr>range_start = Some 0, range_end = Some (length data)\<rparr> =
      (data, None)"
    using decode_encoded [OF assms(1) f r2] whole by simp
  have d3: "rac_decode plugins f \<lparr>range_start = None, range_end = None\<rparr> = (data, None)"
    using decode_encoded [OF assms(1) f r3] whole by simp
  show ?thesis using f d1 d2 d3 by blast
qed

text \<open>Bytes 2 to 7 of the eleven sample bytes, which lie in three chunks of three.\<close>

theorem decode_encode_range_witness:
  "\<exists>f. encode reversing 2 sample_config sample_data = Inr f \<and>
       rac_decode reversing f \<lparr>range_start = Some 2, range_end = Some 8\<rparr> =
         ([12, 13, 14, 15, 16, 17], None) \<and>
       rac_decode reversing f \<lparr>range_start = None, range_end = None\<rparr> = (sample_data, None)"
proof -
  have cfg: "cchunksize sample_config \<noteq> 0 \<longrightarrow> supports_cchunksize (cfg_codec sample_config)"
    by (simp add: sample_config_def)
  have rng: "(2::nat) \<le> 8" "8 \<le> length sample_data" by (simp_all add: sample_data_def)
  from decode_encode_range [OF lossless_reversing cfg rng, of 2]
  obtain f where f: "encode reversing 2 sample_config sample_data = Inr f" and
    d: "rac_decode reversing f \<lparr>range_start = Some 2, range_end = Some 8\<rparr> =
         (take (8 - 2) (drop 2 sample_data), None)" and
    w: "rac_decode reversing f \<lparr>range_start = None, range_end = None\<rparr> = (sample_data, None)"
    by blast
  have "take (8 - 2) (drop 2 sample_data) = [12, 13, 14, 15, 16, 17]"
    by (simp add: sample_data_def)
  with f d w show ?thesis by auto
qed

end
